theory Spec2Isabelle
  imports Complex_Main "HOL-Library.Word" "HOL-Library.Multiset"
begin

unbundle bit_operations_syntax

section \<open>Machine types, undefined behaviour and memory\<close>

text \<open>
  The plugin is C. \<open>uint64_t\<close>, \<open>size_t\<close> and \<open>GT_size\<close> are 64-bit words, \<open>uint32_t\<close> is a
  32-bit word and \<open>int\<close> is a 32-bit word read in two's complement (\<open>sint\<close>). An array is a list whose length
  is the number of elements the caller (or \<open>calloc\<close>) provided. Loop counters are natural
  numbers; where the C counter is an \<open>int\<close>, running past \<open>INT_MAX\<close> is written out.

  Undefined behaviour is a value: a run that reads or writes outside an array, uses a
  \<open>NULL\<close> pointer, overflows a signed integer (or converts a double that does not fit) or
  divides an integer by zero ends in \<open>Inl\<close> of the fault; so does the declaration of a
  variable-length array of no element, or of more bytes than the stack has left
  (\<open>ZeroLengthArray\<close>, \<open>StackOverflow\<close>). \<open>NotFinite\<close> marks a double
  division by zero, whose IEEE result (an infinity or a NaN) the real-valued model of
  \<open>double\<close> cannot represent.
\<close>

type_synonym u64 = "64 word"
type_synonym u32 = "32 word"
type_synonym cint = "32 word"

datatype fault =
  OutOfBounds | NullPointer | Overflow | DivideByZero | NotFinite | ZeroLengthArray | StackOverflow

text \<open>
  \<open>ST_retcode\<close>: \<open>RC_OK\<close> is the return code 0. The helper \<open>sf_oom_error\<close> is not part of
  the sources at hand; the specification says of it that an allocation failure is
  "signaled as a non-zero return code". \<open>RC_OOM step obj\<close> is that non-zero code, with the
  two strings the call site passes.
\<close>

datatype retcode = RC_OK | RC_OOM string string

definition then_do :: "fault + 'a \<Rightarrow> ('a \<Rightarrow> fault + 'b) \<Rightarrow> fault + 'b" where
  "then_do r f = (case r of Inl e \<Rightarrow> Inl e | Inr v \<Rightarrow> f v)"

definition rd :: "'a list \<Rightarrow> nat \<Rightarrow> fault + 'a" where
  "rd a i = (if i < length a then Inr (a ! i) else Inl OutOfBounds)"

definition wr :: "'a list \<Rightarrow> nat \<Rightarrow> 'a \<Rightarrow> fault + 'a list" where
  "wr a i v = (if i < length a then Inr (a[i := v]) else Inl OutOfBounds)"

text \<open>
  A counter used as an array subscript. The flag says whether its C type is signed
  (\<open>int\<close>: a negative subscript is out of bounds) or unsigned (\<open>GT_size\<close>, \<open>uint32_t\<close>).
\<close>

definition subscript :: "bool \<Rightarrow> 'w::len word \<Rightarrow> fault + nat" where
  "subscript isint c =
     (if isint then (if sint c < 0 then Inl OutOfBounds else Inr (nat (sint c)))
      else Inr (unat c))"

text \<open>\<open>for (i = lo; i < hi; i++) body\<close> with an unsigned 64-bit counter.\<close>

definition for_loop :: "nat \<Rightarrow> nat \<Rightarrow> (nat \<Rightarrow> 's \<Rightarrow> fault + 's) \<Rightarrow> 's \<Rightarrow> fault + 's" where
  "for_loop lo hi body s = fold (\<lambda>i r. then_do r (body i)) [lo..<hi] (Inr s)"

text \<open>
  The same loop with \<open>int i\<close> compared against a \<open>size_t\<close> bound: when the bound exceeds
  \<open>INT_MAX\<close> the increment after the iteration \<open>i = INT_MAX\<close> overflows.
\<close>

definition for_int :: "nat \<Rightarrow> nat \<Rightarrow> (nat \<Rightarrow> 's \<Rightarrow> fault + 's) \<Rightarrow> 's \<Rightarrow> fault + 's" where
  "for_int lo hi body s =
     (if hi < 2 ^ 31 then for_loop lo hi body s
      else then_do (for_loop lo (2 ^ 31) body s) (\<lambda>_. Inl Overflow))"

text \<open>The loop of a routine whose counter is \<open>int\<close> (flag set) or \<open>GT_size\<close> (flag clear).\<close>

definition for_c :: "bool \<Rightarrow> nat \<Rightarrow> nat \<Rightarrow> (nat \<Rightarrow> 's \<Rightarrow> fault + 's) \<Rightarrow> 's \<Rightarrow> fault + 's" where
  "for_c isint lo hi body s = (if isint then for_int lo hi body s else for_loop lo hi body s)"

text \<open>\<open>for (i = N - 1; i >= 0; i--) body\<close> with \<open>int i\<close>, reached only after a \<open>for_int\<close> to \<open>N\<close>.\<close>

definition for_down :: "nat \<Rightarrow> (nat \<Rightarrow> 's \<Rightarrow> fault + 's) \<Rightarrow> 's \<Rightarrow> fault + 's" where
  "for_down N body s = fold (\<lambda>i r. then_do r (body i)) (rev [0..<N]) (Inr s)"

text \<open>
  Allocation. The first argument of every routine below lists the scratch buffers whose
  \<open>calloc\<close> or \<open>malloc\<close> returns \<open>NULL\<close> in the run, as pairs of the allocating function
  and the C variable. A successful \<open>calloc\<close> is a zeroed array.
\<close>

type_synonym oom = "(string \<times> string) list"

definition calloc :: "oom \<Rightarrow> string \<Rightarrow> string \<Rightarrow> nat \<Rightarrow> ('a::zero) list option" where
  "calloc failing fn var n = (if (fn, var) \<in> set failing then None else Some (replicate n 0))"

section \<open>Minimum and maximum of the keys\<close>

text \<open>
  Modelled from the spec: the macros \<open>GTOOLS_MIN\<close>, \<open>GTOOLS_MAX\<close> and the helpers \<open>mf_min\<close>,
  \<open>mf_max\<close> are missing from the sources. Section 4.C has \<open>range = max(H) - min(H) + 1\<close>;
  the scan is written like its sibling \<open>mf_array_dmin_range\<close>, which starts from the
  first element.
\<close>

definition mf_min :: "u64 list \<Rightarrow> nat \<Rightarrow> fault + u64" where
  "mf_min x N =
     then_do (rd x 0) (\<lambda>x0.
     for_loop 1 N (\<lambda>i m. then_do (rd x i) (\<lambda>xi. Inr (if m > xi then xi else m))) x0)"

definition mf_max :: "u64 list \<Rightarrow> nat \<Rightarrow> fault + u64" where
  "mf_max x N =
     then_do (rd x 0) (\<lambda>x0.
     for_loop 1 N (\<lambda>i m. then_do (rd x i) (\<lambda>xi. Inr (if m < xi then xi else m))) x0)"

section \<open>Counting sort\<close>

text \<open>
  \<open>gf_counting_sort\<close> (parallel/hash/gtools_sort.c) and \<open>mf_counting_sort_index\<close>
  (hash/gtools_sort.c) are the same text. They differ in the C types of \<open>i\<close>, \<open>s\<close> and
  \<open>count\<close> (\<open>GT_size\<close> in the first, \<open>int\<close> in the second) and in the first string given
  to \<open>sf_oom_error\<close>; these are the parameters \<open>isint\<close>, the word length of \<open>cnt\<close> and \<open>fn\<close>.
  The four loops, in the order of the source:
\<close>

text \<open>\<open>for (i = 0; i < range + 1; i++) count[i] = 0;\<close>, with \<open>hi\<close> for \<open>range + 1\<close>\<close>

definition counting_sort_zero :: "bool \<Rightarrow> nat \<Rightarrow> 'w::len word list \<Rightarrow> fault + 'w word list" where
  "counting_sort_zero isint hi cnt =
     for_c isint 0 hi (\<lambda>i cnt. wr cnt i 0) cnt"

text \<open>\<open>for (i = 0; i < N; i++) { count[ xcopy[i] = (x[i] + 1 - min) ]++; icopy[i] = index[i]; }\<close>\<close>

definition counting_sort_freq ::
  "bool \<Rightarrow> u64 list \<Rightarrow> u64 list \<Rightarrow> nat \<Rightarrow> u64 \<Rightarrow> 'w::len word list \<times> u64 list \<times> u64 list
   \<Rightarrow> fault + ('w word list \<times> u64 list \<times> u64 list)" where
  "counting_sort_freq isint x index N mn =
     for_c isint 0 N (\<lambda>i (cnt, xcopy, icopy).
       then_do (rd x i) (\<lambda>h.
       then_do (wr xcopy i (h + 1 - mn)) (\<lambda>xcopy.
       then_do (rd cnt (unat (h + 1 - mn))) (\<lambda>c.
       then_do (wr cnt (unat (h + 1 - mn)) (c + 1)) (\<lambda>cnt.
       then_do (rd index i) (\<lambda>ix.
       then_do (wr icopy i ix) (\<lambda>icopy.
       Inr (cnt, xcopy, icopy))))))))"

text \<open>\<open>for (i = 1; i < range; i++) count[i] += count[i - 1];\<close>, with \<open>hi\<close> for \<open>range\<close>\<close>

definition counting_sort_cumul :: "bool \<Rightarrow> nat \<Rightarrow> 'w::len word list \<Rightarrow> fault + 'w word list" where
  "counting_sort_cumul isint hi =
     for_c isint 1 hi (\<lambda>i cnt.
       then_do (rd cnt i) (\<lambda>c.
       then_do (rd cnt (i - 1)) (\<lambda>p.
       wr cnt i (c + p))))"

text \<open>
  \<open>for (i = 0; i < N; i++) { index[ s = count[xcopy[i] - 1]++ ] = icopy[i];
  x[s] = xcopy[i] - 1 + min; }\<close>
\<close>

definition counting_sort_copy ::
  "bool \<Rightarrow> u64 list \<Rightarrow> u64 list \<Rightarrow> nat \<Rightarrow> u64 \<Rightarrow> 'w::len word list \<times> u64 list \<times> u64 list
   \<Rightarrow> fault + ('w word list \<times> u64 list \<times> u64 list)" where
  "counting_sort_copy isint xcopy icopy N mn =
     for_c isint 0 N (\<lambda>i (cnt, x, index).
       then_do (rd xcopy i) (\<lambda>xc.
       then_do (rd cnt (unat (xc - 1))) (\<lambda>s.
       then_do (wr cnt (unat (xc - 1)) (s + 1)) (\<lambda>cnt.
       then_do (rd icopy i) (\<lambda>ic.
       then_do (subscript isint s) (\<lambda>si.
       then_do (wr index si ic) (\<lambda>index.
       then_do (wr x si (xc - 1 + mn)) (\<lambda>x.
       Inr (cnt, x, index)))))))))"

text \<open>
  The routine: the three allocations, the three \<open>NULL\<close> checks (each returns the code of
  \<open>sf_oom_error\<close> with the caller's arrays as they were), then the loops.
\<close>

definition counting_sort_text ::
  "bool \<Rightarrow> 'w::len word itself \<Rightarrow> string \<Rightarrow> string \<Rightarrow> oom \<Rightarrow> u64 list \<Rightarrow> u64 list \<Rightarrow> nat \<Rightarrow> u64 \<Rightarrow> u64
   \<Rightarrow> fault + (retcode \<times> u64 list \<times> u64 list)" where
  "counting_sort_text isint ty fn msg failing x index N mn mx =
     (let rng = mx - mn + 1;
          xcopy = calloc failing fn ''xcopy'' N;
          icopy = calloc failing fn ''icopy'' N;
          cnt = calloc failing fn ''count'' (unat (rng + 1))
      in if xcopy = None then Inr (RC_OOM msg ''xcopy'', x, index)
         else if icopy = None then Inr (RC_OOM msg ''icopy'', x, index)
         else if cnt = None then Inr (RC_OOM msg ''count'', x, index)
         else
           then_do (counting_sort_zero isint (unat (rng + 1)) (the cnt :: 'w word list)) (\<lambda>cnt.
           then_do (counting_sort_freq isint x index N mn (cnt, the xcopy, the icopy))
             (\<lambda>(cnt, xcopy, icopy).
           then_do (counting_sort_cumul isint (unat rng) cnt) (\<lambda>cnt.
           then_do (counting_sort_copy isint xcopy icopy N mn (cnt, x, index))
             (\<lambda>(cnt, x, index).
           Inr (RC_OK, x, index))))))"

definition gf_counting_sort ::
  "oom \<Rightarrow> u64 list \<Rightarrow> u64 list \<Rightarrow> nat \<Rightarrow> u64 \<Rightarrow> u64 \<Rightarrow> fault + (retcode \<times> u64 list \<times> u64 list)" where
  "gf_counting_sort =
     counting_sort_text False TYPE(64 word) ''gf_counting_sort'' ''gf_counting_sort_hash''"

definition mf_counting_sort_index ::
  "oom \<Rightarrow> u64 list \<Rightarrow> u64 list \<Rightarrow> nat \<Rightarrow> u64 \<Rightarrow> u64 \<Rightarrow> fault + (retcode \<times> u64 list \<times> u64 list)" where
  "mf_counting_sort_index =
     counting_sort_text True TYPE(32 word) ''mf_counting_sort_index'' ''mf_counting_sort_index''"

section \<open>Radix sort, 16 and 8 bits at a time\<close>

text \<open>\<open>struct radixCounts16\<close> and \<open>radixCounts8\<close>: one table of \<open>uint32_t\<close> per digit.\<close>

record radixCounts16 =
  c4 :: "u32 list"
  c3 :: "u32 list"
  c2 :: "u32 list"
  c1 :: "u32 list"

record radixCounts8 =
  b8 :: "u32 list"
  b7 :: "u32 list"
  b6 :: "u32 list"
  b5 :: "u32 list"
  b4 :: "u32 list"
  b3 :: "u32 list"
  b2 :: "u32 list"
  b1 :: "u32 list"

text \<open>\<open>byte = (hash[i] >> bits) & mask\<close>, stored in a \<open>uint32_t\<close>.\<close>

definition digit :: "nat \<Rightarrow> u64 \<Rightarrow> u64 \<Rightarrow> u32" where
  "digit bits msk h = ucast (drop_bit bits h AND msk)"

text \<open>\<open>counts[byte]++\<close>\<close>

definition incr :: "u32 list \<Rightarrow> u32 \<Rightarrow> fault + u32 list" where
  "incr counts byte = then_do (rd counts (unat byte)) (\<lambda>c. wr counts (unat byte) (c + 1))"

text \<open>
  One redistribution loop, the same text for every digit of \<open>gf_radix_sort16\<close>,
  \<open>gf_radix_psort16\<close> and \<open>gf_radix_sort8\<close> up to the shift, the mask, the table and the
  roles of the two pairs of arrays:
  \<open>for (i = 0; i < N; i++) { byte = (src[i] >> bits) & mask; dst[counts[byte]] = src[i];
  idst[counts[byte]] = isrc[i]; counts[byte]++; }\<close>
\<close>

definition radix_loop ::
  "nat \<Rightarrow> u64 \<Rightarrow> nat \<Rightarrow> u64 list \<Rightarrow> u64 list \<Rightarrow> u32 list \<times> u64 list \<times> u64 list
   \<Rightarrow> fault + (u32 list \<times> u64 list \<times> u64 list)" where
  "radix_loop bits msk N src isrc =
     for_loop 0 N (\<lambda>i (counts, dst, idst).
       then_do (rd src i) (\<lambda>h.
       then_do (rd counts (unat (digit bits msk h))) (\<lambda>c.
       then_do (wr dst (unat c) h) (\<lambda>dst.
       then_do (rd isrc i) (\<lambda>ix.
       then_do (wr idst (unat c) ix) (\<lambda>idst.
       then_do (incr counts (digit bits msk h)) (\<lambda>counts.
       Inr (counts, dst, idst))))))))"

subsection \<open>\<open>gf_radix_sort16\<close>\<close>

text \<open>Initialize counts to 0.\<close>

definition radix16_zero :: "nat \<Rightarrow> radixCounts16 \<Rightarrow> fault + radixCounts16" where
  "radix16_zero sz =
     for_loop 0 sz (\<lambda>i counts.
       then_do (wr (c4 counts) i 0) (\<lambda>t4.
       then_do (wr (c3 counts) i 0) (\<lambda>t3.
       then_do (wr (c2 counts) i 0) (\<lambda>t2.
       then_do (wr (c1 counts) i 0) (\<lambda>t1.
       Inr \<lparr>c4 = t4, c3 = t3, c2 = t2, c1 = t1\<rparr>)))))"

text \<open>Calculate counts.\<close>

definition radix16_counts :: "u64 list \<Rightarrow> nat \<Rightarrow> radixCounts16 \<Rightarrow> fault + radixCounts16" where
  "radix16_counts hash N =
     for_loop 0 N (\<lambda>i counts.
       then_do (rd hash i) (\<lambda>h.
       then_do (incr (c4 counts) (digit 0 0xffff h)) (\<lambda>t4.
       then_do (incr (c3 counts) (digit 16 0xffff h)) (\<lambda>t3.
       then_do (incr (c2 counts) (digit 32 0xffff h)) (\<lambda>t2.
       then_do (incr (c1 counts) (digit 48 0xffff h)) (\<lambda>t1.
       Inr \<lparr>c4 = t4, c3 = t3, c2 = t2, c1 = t1\<rparr>))))))"

text \<open>Convert counts to offsets; the state carries \<open>offset4\<close>, ..., \<open>offset1\<close>.\<close>

definition radix16_offsets ::
  "nat \<Rightarrow> radixCounts16 \<times> u32 \<times> u32 \<times> u32 \<times> u32
   \<Rightarrow> fault + (radixCounts16 \<times> u32 \<times> u32 \<times> u32 \<times> u32)" where
  "radix16_offsets sz =
     for_loop 0 sz (\<lambda>i (counts, offset4, offset3, offset2, offset1).
       then_do (rd (c4 counts) i) (\<lambda>n4.
       then_do (rd (c3 counts) i) (\<lambda>n3.
       then_do (rd (c2 counts) i) (\<lambda>n2.
       then_do (rd (c1 counts) i) (\<lambda>n1.
       then_do (wr (c4 counts) i offset4) (\<lambda>t4.
       then_do (wr (c3 counts) i offset3) (\<lambda>t3.
       then_do (wr (c2 counts) i offset2) (\<lambda>t2.
       then_do (wr (c1 counts) i offset1) (\<lambda>t1.
       Inr (\<lparr>c4 = t4, c3 = t3, c2 = t2, c1 = t1\<rparr>,
            offset4 + n4, offset3 + n3, offset2 + n2, offset1 + n1))))))))))"

text \<open>
  The routine. \<open>hcopy\<close> and \<open>ixcopy\<close> are checked against \<open>NULL\<close>; \<open>counts\<close> and its four
  tables are not, and the first store through any of them (\<open>counts->c4 = ...\<close>, or the
  zeroing loop over 65536 entries) dereferences it.
\<close>

definition gf_radix_sort16 ::
  "oom \<Rightarrow> u64 list \<Rightarrow> u64 list \<Rightarrow> nat \<Rightarrow> fault + (retcode \<times> u64 list \<times> u64 list)" where
  "gf_radix_sort16 failing hash index N =
     (let sz = 65536;
          hcopy = calloc failing ''gf_radix_sort16'' ''hcopy'' N;
          ixcopy = calloc failing ''gf_radix_sort16'' ''ixcopy'' N
      in if hcopy = None then Inr (RC_OOM ''radixSort'' ''hcopy'', hash, index)
         else if ixcopy = None then Inr (RC_OOM ''radixSort'' ''ixcopy'', hash, index)
         else if \<exists>var \<in> set [''counts'', ''counts->c4'', ''counts->c3'', ''counts->c2'', ''counts->c1''].
                   (''gf_radix_sort16'', var) \<in> set failing
         then Inl NullPointer
         else
           then_do (radix16_zero sz
                      \<lparr>c4 = replicate sz 0, c3 = replicate sz 0,
                       c2 = replicate sz 0, c1 = replicate sz 0\<rparr>) (\<lambda>counts.
           then_do (radix16_counts hash N counts) (\<lambda>counts.
           then_do (radix16_offsets sz (counts, 0, 0, 0, 0)) (\<lambda>(counts, offset4, offset3, offset2, offset1).
           then_do (radix_loop 0 0xffff N hash index (c4 counts, the hcopy, the ixcopy))
             (\<lambda>(t4, hcopy, ixcopy).
           then_do (radix_loop 16 0xffff N hcopy ixcopy (c3 counts, hash, index))
             (\<lambda>(t3, hash, index).
           then_do (radix_loop 32 0xffff N hash index (c2 counts, hcopy, ixcopy))
             (\<lambda>(t2, hcopy, ixcopy).
           then_do (radix_loop 48 0xffff N hcopy ixcopy (c1 counts, hash, index))
             (\<lambda>(t1, hash, index).
           Inr (RC_OK, hash, index)))))))))"

subsection \<open>\<open>gf_radix_psort16\<close> and its worker \<open>gf_radix_counts16\<close>\<close>

text \<open>
  \<open>struct pInfo\<close>, the argument of a worker thread. \<open>counts\<close> is a pointer that the caller
  never checks: \<open>None\<close> is \<open>NULL\<close>.
\<close>

record pInfo =
  thread :: nat
  counts :: "u32 list option"
  hash :: "u64 list"
  psize :: nat
  pN :: nat

text \<open>
  The worker zeroes its table, counts the digit \<open>16 * thread\<close> of every key and turns the
  counts into running offsets. It returns the table it wrote.
\<close>

definition gf_radix_counts16 :: "pInfo \<Rightarrow> fault + u32 list" where
  "gf_radix_counts16 pinfo =
     (let bits = 16 * thread pinfo in
      case counts pinfo of
        None \<Rightarrow> Inl NullPointer
      | Some tab \<Rightarrow>
          then_do (for_loop 0 (psize pinfo) (\<lambda>i tab. wr tab i 0) tab) (\<lambda>tab.
          then_do (if bits = 0
                   then for_loop 0 (pN pinfo) (\<lambda>i tab.
                          then_do (rd (hash pinfo) i) (\<lambda>h.
                          incr tab (ucast (h AND 0xffff)))) tab
                   else for_loop 0 (pN pinfo) (\<lambda>i tab.
                          then_do (rd (hash pinfo) i) (\<lambda>h.
                          incr tab (digit bits 0xffff h))) tab) (\<lambda>tab.
          then_do (for_loop 0 (psize pinfo) (\<lambda>i (tab, coffset).
                     then_do (rd tab i) (\<lambda>n.
                     then_do (wr tab i coffset) (\<lambda>tab.
                     Inr (tab, coffset + n)))) (tab, 0)) (\<lambda>(tab, coffset).
          Inr tab))))"

text \<open>
  The four workers write four disjoint tables and are joined before the first
  redistribution loop, so the model runs them one after the other. \<open>pcounts4\<close>, ...,
  \<open>pcounts1\<close> and \<open>pinfo\<close> are not checked against \<open>NULL\<close>; \<open>hcopy\<close> and \<open>ixcopy\<close> are, before
  anything is stored.
\<close>

definition gf_radix_psort16 ::
  "oom \<Rightarrow> u64 list \<Rightarrow> u64 list \<Rightarrow> nat \<Rightarrow> fault + (retcode \<times> u64 list \<times> u64 list)" where
  "gf_radix_psort16 failing hash0 index N =
     (let sz = 65536;
          pcounts4 = calloc failing ''gf_radix_psort16'' ''pcounts4'' sz;
          pcounts3 = calloc failing ''gf_radix_psort16'' ''pcounts3'' sz;
          pcounts2 = calloc failing ''gf_radix_psort16'' ''pcounts2'' sz;
          pcounts1 = calloc failing ''gf_radix_psort16'' ''pcounts1'' sz;
          hcopy = calloc failing ''gf_radix_psort16'' ''hcopy'' N;
          ixcopy = calloc failing ''gf_radix_psort16'' ''ixcopy'' N
      in if hcopy = None then Inr (RC_OOM ''radixSort'' ''hcopy'', hash0, index)
         else if ixcopy = None then Inr (RC_OOM ''radixSort'' ''ixcopy'', hash0, index)
         else if (''gf_radix_psort16'', ''pinfo'') \<in> set failing then Inl NullPointer
         else
           then_do (gf_radix_counts16
                      \<lparr>thread = 0, counts = pcounts4, hash = hash0, psize = sz, pN = N\<rparr>) (\<lambda>pcounts4.
           then_do (gf_radix_counts16
                      \<lparr>thread = 1, counts = pcounts3, hash = hash0, psize = sz, pN = N\<rparr>) (\<lambda>pcounts3.
           then_do (gf_radix_counts16
                      \<lparr>thread = 2, counts = pcounts2, hash = hash0, psize = sz, pN = N\<rparr>) (\<lambda>pcounts2.
           then_do (gf_radix_counts16
                      \<lparr>thread = 3, counts = pcounts1, hash = hash0, psize = sz, pN = N\<rparr>) (\<lambda>pcounts1.
           then_do (radix_loop 0 0xffff N hash0 index (pcounts4, the hcopy, the ixcopy))
             (\<lambda>(t4, hcopy, ixcopy).
           then_do (radix_loop 16 0xffff N hcopy ixcopy (pcounts3, hash0, index))
             (\<lambda>(t3, hash1, index).
           then_do (radix_loop 32 0xffff N hash1 index (pcounts2, hcopy, ixcopy))
             (\<lambda>(t2, hcopy, ixcopy).
           then_do (radix_loop 48 0xffff N hcopy ixcopy (pcounts1, hash1, index))
             (\<lambda>(t1, hash2, index).
           Inr (RC_OK, hash2, index))))))))))"

subsection \<open>\<open>gf_radix_sort8\<close>\<close>

text \<open>Calculate counts: eight tables of 256 entries, zeroed by \<open>memset\<close>.\<close>

definition radix8_counts :: "u64 list \<Rightarrow> nat \<Rightarrow> radixCounts8 \<Rightarrow> fault + radixCounts8" where
  "radix8_counts hash0 N =
     for_loop 0 N (\<lambda>i cs.
       then_do (rd hash0 i) (\<lambda>h.
       then_do (incr (b8 cs) (digit 0 0xff h)) (\<lambda>t8.
       then_do (incr (b7 cs) (digit 8 0xff h)) (\<lambda>t7.
       then_do (incr (b6 cs) (digit 16 0xff h)) (\<lambda>t6.
       then_do (incr (b5 cs) (digit 24 0xff h)) (\<lambda>t5.
       then_do (incr (b4 cs) (digit 32 0xff h)) (\<lambda>t4.
       then_do (incr (b3 cs) (digit 40 0xff h)) (\<lambda>t3.
       then_do (incr (b2 cs) (digit 48 0xff h)) (\<lambda>t2.
       then_do (incr (b1 cs) (digit 56 0xff h)) (\<lambda>t1.
       Inr \<lparr>b8 = t8, b7 = t7, b6 = t6, b5 = t5, b4 = t4, b3 = t3, b2 = t2, b1 = t1\<rparr>))))))))))"

text \<open>Convert counts to offsets; the second component is \<open>[offset8, ..., offset1]\<close>.\<close>

definition radix8_offsets ::
  "nat \<Rightarrow> radixCounts8 \<times> u32 list \<Rightarrow> fault + (radixCounts8 \<times> u32 list)" where
  "radix8_offsets sz =
     for_loop 0 sz (\<lambda>i (cs, offs).
       then_do (rd (b8 cs) i) (\<lambda>n8.
       then_do (rd (b7 cs) i) (\<lambda>n7.
       then_do (rd (b6 cs) i) (\<lambda>n6.
       then_do (rd (b5 cs) i) (\<lambda>n5.
       then_do (rd (b4 cs) i) (\<lambda>n4.
       then_do (rd (b3 cs) i) (\<lambda>n3.
       then_do (rd (b2 cs) i) (\<lambda>n2.
       then_do (rd (b1 cs) i) (\<lambda>n1.
       then_do (wr (b8 cs) i (offs ! 0)) (\<lambda>t8.
       then_do (wr (b7 cs) i (offs ! 1)) (\<lambda>t7.
       then_do (wr (b6 cs) i (offs ! 2)) (\<lambda>t6.
       then_do (wr (b5 cs) i (offs ! 3)) (\<lambda>t5.
       then_do (wr (b4 cs) i (offs ! 4)) (\<lambda>t4.
       then_do (wr (b3 cs) i (offs ! 5)) (\<lambda>t3.
       then_do (wr (b2 cs) i (offs ! 6)) (\<lambda>t2.
       then_do (wr (b1 cs) i (offs ! 7)) (\<lambda>t1.
       Inr (\<lparr>b8 = t8, b7 = t7, b6 = t6, b5 = t5, b4 = t4, b3 = t3, b2 = t2, b1 = t1\<rparr>,
            [offs ! 0 + n8, offs ! 1 + n7, offs ! 2 + n6, offs ! 3 + n5,
             offs ! 4 + n4, offs ! 5 + n3, offs ! 6 + n2, offs ! 7 + n1]))))))))))))))))))"

definition gf_radix_sort8 ::
  "oom \<Rightarrow> u64 list \<Rightarrow> u64 list \<Rightarrow> nat \<Rightarrow> fault + (retcode \<times> u64 list \<times> u64 list)" where
  "gf_radix_sort8 failing hash0 index N =
     (let z = replicate 256 0;
          hcopy = calloc failing ''gf_radix_sort8'' ''hcopy'' N;
          ixcopy = calloc failing ''gf_radix_sort8'' ''ixcopy'' N
      in if hcopy = None then Inr (RC_OOM ''radixSort'' ''hcopy'', hash0, index)
         else if ixcopy = None then Inr (RC_OOM ''radixSort'' ''ixcopy'', hash0, index)
         else
           then_do (radix8_counts hash0 N
                      \<lparr>b8 = z, b7 = z, b6 = z, b5 = z, b4 = z, b3 = z, b2 = z, b1 = z\<rparr>) (\<lambda>cs.
           then_do (radix8_offsets 256 (cs, [0, 0, 0, 0, 0, 0, 0, 0])) (\<lambda>(cs, offs).
           then_do (radix_loop 0 0xff N hash0 index (b8 cs, the hcopy, the ixcopy))
             (\<lambda>(t8, hcopy, ixcopy).
           then_do (radix_loop 8 0xff N hcopy ixcopy (b7 cs, hash0, index))
             (\<lambda>(t7, hash1, index).
           then_do (radix_loop 16 0xff N hash1 index (b6 cs, hcopy, ixcopy))
             (\<lambda>(t6, hcopy, ixcopy).
           then_do (radix_loop 24 0xff N hcopy ixcopy (b5 cs, hash1, index))
             (\<lambda>(t5, hash2, index).
           then_do (radix_loop 32 0xff N hash2 index (b4 cs, hcopy, ixcopy))
             (\<lambda>(t4, hcopy, ixcopy).
           then_do (radix_loop 40 0xff N hcopy ixcopy (b3 cs, hash2, index))
             (\<lambda>(t3, hash3, index).
           then_do (radix_loop 48 0xff N hash3 index (b2 cs, hcopy, ixcopy))
             (\<lambda>(t2, hcopy, ixcopy).
           then_do (radix_loop 56 0xff N hcopy ixcopy (b1 cs, hash3, index))
             (\<lambda>(t1, hash4, index).
           Inr (RC_OK, hash4, index))))))))))))"

subsection \<open>The dispatcher \<open>gf_sort_hash\<close>\<close>

text \<open>
  \<open>copy_hash\<close> and \<open>copy_index\<close> are not checked against \<open>NULL\<close>; the copying loop stores
  through them (a \<open>NULL\<close> array handed on has no element). The parallel sort works on the
  two copies, and only its return code is looked at.
\<close>

definition gf_sort_hash ::
  "oom \<Rightarrow> u64 list \<Rightarrow> u64 list \<Rightarrow> nat \<Rightarrow> fault + (retcode \<times> u64 list \<times> u64 list)" where
  "gf_sort_hash failing hash0 index N =
     then_do (mf_min hash0 N) (\<lambda>mn.
     then_do (mf_max hash0 N) (\<lambda>mx.
     let rng = mx - mn + 1; ctol = (2 ^ 24 :: u64)
     in if rng < ctol then gf_counting_sort failing hash0 index N mn mx
        else
          let copy_hash = calloc failing ''gf_sort_hash'' ''copy_hash'' N;
              copy_index = calloc failing ''gf_sort_hash'' ''copy_index'' N
          in then_do (for_loop 0 N (\<lambda>i (copy_hash, copy_index).
                 if copy_hash = None \<or> copy_index = None then Inl NullPointer
                 else
                   then_do (rd hash0 i) (\<lambda>h.
                   then_do (wr (the copy_hash) i h) (\<lambda>ch.
                   then_do (rd index i) (\<lambda>ix.
                   then_do (wr (the copy_index) i ix) (\<lambda>ci.
                   Inr (Some ch, Some ci)))))) (copy_hash, copy_index))
               (\<lambda>(copy_hash, copy_index).
             then_do (gf_radix_psort16 failing (case copy_hash of None \<Rightarrow> [] | Some a \<Rightarrow> a)
                        (case copy_index of None \<Rightarrow> [] | Some a \<Rightarrow> a) N)
               (\<lambda>(rc, sorted_copy, sorted_copy_index).
             if rc \<noteq> RC_OK then Inr (rc, hash0, index)
             else gf_radix_sort16 failing hash0 index N))))"

section \<open>The sort of hash/gtools_sort.c\<close>

text \<open>
  \<open>mf_radix_sort_index_pass\<close>: \<open>int i, c, count[shift]\<close>. The variable-length array
  \<open>count\<close> is declared on the stack after the three calls of \<open>calloc\<close> and before their
  results are tested: it takes \<open>sizeof(int) * shift = 4 * shift\<close> bytes, and \<open>stack\<close>, a
  parameter of the model, is the number of bytes the stack has left for it when the routine
  is entered. The array is zeroed by the first loop. \<open>exp\<close> and \<open>shift\<close> are \<open>size_t\<close>;
  dividing by an \<open>exp\<close> or a \<open>shift\<close> of zero is a fault.
\<close>

definition mf_radix_sort_index_pass ::
  "nat \<Rightarrow> oom \<Rightarrow> u64 list \<Rightarrow> u64 list \<Rightarrow> nat \<Rightarrow> u64 \<Rightarrow> u64
   \<Rightarrow> fault + (retcode \<times> u64 list \<times> u64 list)" where
  "mf_radix_sort_index_pass stack failing x index N exp0 shift =
     (let xmod = calloc failing ''mf_radix_sort_index_pass'' ''xmod'' N;
          outx = calloc failing ''mf_radix_sort_index_pass'' ''outx'' N;
          outi = calloc failing ''mf_radix_sort_index_pass'' ''outi'' N
      in if shift = 0 then Inl ZeroLengthArray
         else if stack < 4 * unat shift then Inl StackOverflow
         else if xmod = None then Inr (RC_OOM ''mf_radix_sort_index_pass'' ''xmod'', x, index)
         else if outx = None then Inr (RC_OOM ''mf_radix_sort_index_pass'' ''outx'', x, index)
         else if outi = None then Inr (RC_OOM ''mf_radix_sort_index_pass'' ''outi'', x, index)
         else
           then_do (for_int 0 (unat shift) (\<lambda>i cnt. wr cnt i (0::cint))
                      (replicate (unat shift) 0)) (\<lambda>cnt.
           then_do (for_int 0 N (\<lambda>i (cnt, xmod, outx, outi).
               then_do (rd x i) (\<lambda>h.
               then_do (wr outx i h) (\<lambda>outx.
               then_do (if exp0 = 0 \<or> shift = 0 then Inl DivideByZero
                        else Inr ((h div exp0) mod shift)) (\<lambda>m.
               then_do (wr xmod i m) (\<lambda>xmod.
               then_do (rd cnt (unat m)) (\<lambda>c.
               then_do (wr cnt (unat m) (c + 1)) (\<lambda>cnt.
               then_do (rd index i) (\<lambda>ix.
               then_do (wr outi i ix) (\<lambda>outi.
               Inr (cnt, xmod, outx, outi)))))))))) (cnt, the xmod, the outx, the outi))
             (\<lambda>(cnt, xmod, outx, outi).
           then_do (for_int 1 (unat shift) (\<lambda>i cnt.
               then_do (rd cnt i) (\<lambda>c.
               then_do (rd cnt (i - 1)) (\<lambda>p.
               wr cnt i (c + p)))) cnt) (\<lambda>cnt.
           then_do (for_down N (\<lambda>i (cnt, x, index).
               then_do (rd xmod i) (\<lambda>m.
               then_do (rd cnt (unat m)) (\<lambda>cv.
               then_do (wr cnt (unat m) (cv - 1)) (\<lambda>cnt.
               then_do (subscript True (cv - 1)) (\<lambda>c.
               then_do (rd outi i) (\<lambda>oi.
               then_do (wr index c oi) (\<lambda>index.
               then_do (rd outx i) (\<lambda>ox.
               then_do (wr x c ox) (\<lambda>x.
               Inr (cnt, x, index)))))))))) (cnt, x, index))
             (\<lambda>(cnt, x, index).
           Inr (RC_OK, x, index))))))"

text \<open>
  The \<open>do { ... } while ( (max > (exp *= shift)) & (nloops++ < loops) )\<close> of
  \<open>mf_radix_sort_index\<close>: a pass, then \<open>exp\<close> is multiplied (a 64-bit product) and both
  conditions are evaluated.
\<close>

function mf_radix_sort_index_do ::
  "nat \<Rightarrow> oom \<Rightarrow> nat \<Rightarrow> u64 \<Rightarrow> u64 \<Rightarrow> nat \<Rightarrow> u64 list \<Rightarrow> u64 list \<Rightarrow> u64 \<Rightarrow> nat
   \<Rightarrow> fault + (retcode \<times> u64 list \<times> u64 list)" where
  "mf_radix_sort_index_do stack failing N mx shift loops x index exp0 nloops =
     (case mf_radix_sort_index_pass stack failing x index N exp0 shift of
        Inl e \<Rightarrow> Inl e
      | Inr (rc, x', index') \<Rightarrow>
          if rc \<noteq> RC_OK then Inr (rc, x', index')
          else if mx > exp0 * shift \<and> nloops < loops
          then mf_radix_sort_index_do stack failing N mx shift loops x' index' (exp0 * shift)
                 (nloops + 1)
          else Inr (RC_OK, x', index'))"
  by pat_completeness auto
termination
  by (relation
       "measure (\<lambda>(stack, failing, N, mx, shift, loops, x, index, exp0, nloops). loops - nloops)")
     auto

text \<open>\<open>for (i = 0; i < N; i++) index[i] = i;\<close> with \<open>int i\<close>.\<close>

definition mf_index_fill :: "nat \<Rightarrow> u64 list \<Rightarrow> fault + u64 list" where
  "mf_index_fill N index = for_int 0 N (\<lambda>i index. wr index i (of_nat i)) index"

text \<open>
  \<open>mf_radix_sort_index\<close>. With \<open>raw = 0\<close>, \<open>loops = 64 / dshift - 1\<close> is a fault for
  \<open>dshift = 0\<close>, and \<open>shift = pow(2, dshift)\<close> does not fit a \<open>size_t\<close> from \<open>dshift = 64\<close> on.
  With \<open>raw\<close> set, \<open>shift = dshift\<close> and \<open>loops = log(max) / log(dshift)\<close>, a quotient of
  two floating-point logarithms converted to \<open>uint64_t\<close>: \<open>rawloops max dshift\<close>, a
  parameter of the model, is the value that the C library and the conversion give, or a
  fault where the conversion is undefined. \<open>verbose\<close> only prints.
\<close>

definition mf_radix_sort_index ::
  "nat \<Rightarrow> (u64 \<Rightarrow> nat \<Rightarrow> fault + nat) \<Rightarrow> oom \<Rightarrow> u64 list \<Rightarrow> u64 list \<Rightarrow> nat \<Rightarrow> nat \<Rightarrow> nat
   \<Rightarrow> fault + (retcode \<times> u64 list \<times> u64 list)" where
  "mf_radix_sort_index stack rawloops failing x index N dshift raw =
     then_do (mf_max x N) (\<lambda>mx.
     then_do (mf_min x N) (\<lambda>mn.
     let rng = mx - mn + 1; ctol = (2 ^ 24 :: u64)
     in then_do (if raw \<noteq> 0
                 then then_do (rawloops mx dshift) (\<lambda>loops. Inr (of_nat dshift :: u64, loops))
                 else if dshift = 0 then Inl DivideByZero
                 else if 64 \<le> dshift then Inl Overflow
                 else Inr (2 ^ dshift :: u64, 64 div dshift - 1)) (\<lambda>(shift, loops).
        then_do (mf_index_fill N index) (\<lambda>index.
        if rng < ctol then mf_counting_sort_index failing x index N mn mx
        else mf_radix_sort_index_do stack failing N mx shift loops x index 1 0))))"

section \<open>Panel setup\<close>

text \<open>\<open>mf_check_allequal\<close>: 1 is \<open>True\<close>, 0 is \<open>False\<close>; the loop returns at the first difference.\<close>

function mf_check_allequal_from :: "u64 list \<Rightarrow> u64 \<Rightarrow> nat \<Rightarrow> nat \<Rightarrow> fault + bool" where
  "mf_check_allequal_from hash0 first i end0 =
     (if i < end0
      then (case rd hash0 i of
              Inl e \<Rightarrow> Inl e
            | Inr h \<Rightarrow> if h \<noteq> first then Inr False
                       else mf_check_allequal_from hash0 first (i + 1) end0)
      else Inr True)"
  by pat_completeness auto
termination
  by (relation "measure (\<lambda>(hash0, first, i, end0). end0 - i)") auto

definition mf_check_allequal :: "u64 list \<Rightarrow> nat \<Rightarrow> nat \<Rightarrow> fault + bool" where
  "mf_check_allequal hash0 start end0 =
     then_do (rd hash0 start) (\<lambda>first. mf_check_allequal_from hash0 first (start + 1) end0)"

text \<open>
  \<open>mf_panelsetup\<close>. The body of the \<open>do { ... } while (i < N)\<close> runs before \<open>i < N\<close> is
  tested for the first time. The result is the returned pointer (\<open>None\<close> is \<open>NULL\<close>) and
  the value left in \<open>*J\<close>.
\<close>

function mf_panelsetup_do ::
  "u64 list \<Rightarrow> nat \<Rightarrow> nat \<Rightarrow> nat \<Rightarrow> u64 \<Rightarrow> u64 list \<Rightarrow> fault + (nat \<times> u64 list)" where
  "mf_panelsetup_do h1 N i l el info_largest =
     (case (then_do (rd h1 i) (\<lambda>h.
              if h \<noteq> el
              then then_do (wr info_largest l (of_nat i)) (\<lambda>info_largest.
                   Inr (l + 1, h, info_largest))
              else Inr (l, el, info_largest))) of
        Inl e \<Rightarrow> Inl e
      | Inr (l', el', info_largest') \<Rightarrow>
          if i + 1 < N then mf_panelsetup_do h1 N (i + 1) l' el' info_largest'
          else Inr (l', info_largest'))"
  by pat_completeness auto
termination
  by (relation "measure (\<lambda>(h1, N, i, l, el, info_largest). N - i)") auto

definition mf_panelsetup :: "oom \<Rightarrow> u64 list \<Rightarrow> nat \<Rightarrow> fault + (u64 list option \<times> nat)" where
  "mf_panelsetup failing h1 N =
     then_do (rd h1 0) (\<lambda>el.
     case calloc failing ''mf_panelsetup'' ''info_largest'' (N + 1) of
       None \<Rightarrow> Inr (None, 1)
     | Some info_largest \<Rightarrow>
         then_do (wr info_largest 0 0) (\<lambda>info_largest.
         then_do (mf_panelsetup_do h1 N 1 1 el info_largest) (\<lambda>(l, info_largest).
         then_do (wr info_largest l (of_nat N)) (\<lambda>info_largest.
         case calloc failing ''mf_panelsetup'' ''info'' (l + 1) of
           None \<Rightarrow> Inr (None, l)
         | Some info \<Rightarrow>
             then_do (for_loop 0 (l + 1) (\<lambda>i info.
                        then_do (rd info_largest i) (\<lambda>v. wr info i v)) info) (\<lambda>info.
             Inr (Some info, l))))))"

text \<open>
  \<open>mf_panelsetup128\<close>. \<open>RADIX_SHIFT\<close> is defined in a header that is not at hand: it is the
  parameter \<open>dshift\<close>; \<open>stack\<close> and \<open>rawloops\<close> are handed on to \<open>mf_radix_sort_index\<close>,
  which is called with \<open>raw = 0\<close>. The repair of a block \<open>[start_l, i)\<close> whose second halves differ:
  the result is \<open>None\<close> when one of its three allocations fails (the routine then returns
  \<open>NULL\<close>), the rewritten \<open>index\<close> otherwise. The return code of the sort is not looked at.
\<close>

definition mf_panelsetup128_repair ::
  "nat \<Rightarrow> (u64 \<Rightarrow> nat \<Rightarrow> fault + nat) \<Rightarrow> oom \<Rightarrow> nat \<Rightarrow> u64 list \<Rightarrow> u64 list \<Rightarrow> nat \<Rightarrow> nat
   \<Rightarrow> fault + u64 list option" where
  "mf_panelsetup128_repair stack rawloops failing dshift h2 index start_l i =
     (let range_l = i - start_l;
          ix_l = calloc failing ''mf_panelsetup128'' ''ix_l'' range_l;
          ix_c = calloc failing ''mf_panelsetup128'' ''ix_c'' range_l;
          h2_l = calloc failing ''mf_panelsetup128'' ''h2_l'' range_l
      in if ix_l = None \<or> ix_c = None \<or> h2_l = None then Inr None
         else
           then_do (for_loop start_l i (\<lambda>j h2_l.
                      then_do (rd h2 j) (\<lambda>v. wr h2_l (j - start_l) v)) (the h2_l)) (\<lambda>h2_l.
           then_do (mf_radix_sort_index stack rawloops failing h2_l (the ix_l) range_l dshift 0)
             (\<lambda>(rc, h2_l, ix_l).
           then_do (for_loop 0 range_l (\<lambda>j ix_c.
                      then_do (rd ix_l j) (\<lambda>p.
                      then_do (rd index (unat (p + of_nat start_l))) (\<lambda>v.
                      wr ix_c j v))) (the ix_c)) (\<lambda>ix_c.
           then_do (for_loop start_l i (\<lambda>j index.
                      then_do (rd ix_c (j - start_l)) (\<lambda>v. wr index j v)) index) (\<lambda>index.
           Inr (Some index))))))"

text \<open>
  One run of the body of \<open>do { ... } while (i < N)\<close>. The state is \<open>l\<close>, \<open>el\<close>,
  \<open>info_largest\<close>, \<open>index\<close> and \<open>collision64\<close>; the flag is \<open>False\<close> when the body
  executed \<open>return(NULL)\<close>.
\<close>

definition mf_panelsetup128_body ::
  "nat \<Rightarrow> (u64 \<Rightarrow> nat \<Rightarrow> fault + nat) \<Rightarrow> oom \<Rightarrow> nat \<Rightarrow> u64 list \<Rightarrow> u64 list \<Rightarrow> nat
   \<Rightarrow> nat \<times> u64 \<times> u64 list \<times> u64 list \<times> nat
   \<Rightarrow> fault + (bool \<times> nat \<times> u64 \<times> u64 list \<times> u64 list \<times> nat)" where
  "mf_panelsetup128_body stack rawloops failing dshift h1 h2 i =
     (\<lambda>(l, el, info_largest, index, collision64).
       then_do (rd h1 i) (\<lambda>h.
       if h \<noteq> el
       then then_do (rd info_largest (l - 1)) (\<lambda>start_l.
            then_do (mf_check_allequal h2 (unat start_l) i) (\<lambda>alleq.
            then_do (if alleq then Inr (Some index, collision64)
                     else then_do (mf_panelsetup128_repair stack rawloops failing dshift h2 index
                                     (unat start_l) i)
                            (\<lambda>r. Inr (r, collision64 + 1))) (\<lambda>(r, collision64).
            case r of
              None \<Rightarrow> Inr (False, l, el, info_largest, index, collision64)
            | Some index \<Rightarrow>
                then_do (wr info_largest l (of_nat i)) (\<lambda>info_largest.
                Inr (True, l + 1, h, info_largest, index, collision64)))))
       else Inr (True, l, el, info_largest, index, collision64)))"

function mf_panelsetup128_do ::
  "nat \<Rightarrow> (u64 \<Rightarrow> nat \<Rightarrow> fault + nat) \<Rightarrow> oom \<Rightarrow> nat \<Rightarrow> u64 list \<Rightarrow> u64 list \<Rightarrow> nat \<Rightarrow> nat
   \<Rightarrow> nat \<times> u64 \<times> u64 list \<times> u64 list \<times> nat
   \<Rightarrow> fault + (bool \<times> nat \<times> u64 \<times> u64 list \<times> u64 list \<times> nat)" where
  "mf_panelsetup128_do stack rawloops failing dshift h1 h2 N i st =
     (case mf_panelsetup128_body stack rawloops failing dshift h1 h2 i st of
        Inl e \<Rightarrow> Inl e
      | Inr (ok, st') \<Rightarrow>
          if ok \<and> i + 1 < N
          then mf_panelsetup128_do stack rawloops failing dshift h1 h2 N (i + 1) st'
          else Inr (ok, st'))"
  by pat_completeness auto
termination
  by (relation "measure (\<lambda>(stack, rawloops, failing, dshift, h1, h2, N, i, st). N - i)") auto

text \<open>
  The result is the returned pointer, the value left in \<open>*J\<close>, the caller's \<open>index\<close> and
  the number of collisions that the routine prints (nothing is printed on the paths that
  return \<open>NULL\<close>).
\<close>

definition mf_panelsetup128 ::
  "nat \<Rightarrow> (u64 \<Rightarrow> nat \<Rightarrow> fault + nat) \<Rightarrow> oom \<Rightarrow> nat \<Rightarrow> u64 list \<Rightarrow> u64 list \<Rightarrow> u64 list \<Rightarrow> nat
   \<Rightarrow> fault + (u64 list option \<times> nat \<times> u64 list \<times> nat)" where
  "mf_panelsetup128 stack rawloops failing dshift h1 h2 index N =
     then_do (rd h1 0) (\<lambda>el.
     case calloc failing ''mf_panelsetup128'' ''info_largest'' (N + 1) of
       None \<Rightarrow> Inr (None, 1, index, 0)
     | Some info_largest \<Rightarrow>
         then_do (wr info_largest 0 0) (\<lambda>info_largest.
         then_do (mf_panelsetup128_do stack rawloops failing dshift h1 h2 N 1
                    (1, el, info_largest, index, 0))
           (\<lambda>(ok, l, el, info_largest, index, collision64).
         if \<not> ok then Inr (None, 1, index, 0)
         else
           then_do (wr info_largest l (of_nat N)) (\<lambda>info_largest.
           case calloc failing ''mf_panelsetup128'' ''info'' (l + 1) of
             None \<Rightarrow> Inr (None, l, index, 0)
           | Some info \<Rightarrow>
               then_do (for_loop 0 (l + 1) (\<lambda>i info.
                          then_do (rd info_largest i) (\<lambda>v. wr info i v)) info) (\<lambda>info.
               Inr (Some info, l, index, collision64))))))"

section \<open>Range reducers\<close>

text \<open>
  A \<open>double\<close> is modelled as a real number. In the reducers that only accumulate (sum,
  mean, sd, min, max) sums, differences and quotients are written exact, and a quotient by
  zero is the fault \<open>NotFinite\<close>. \<open>start\<close> and \<open>end\<close> are \<open>size_t\<close>, and
  \<open>end - start\<close> is their 64-bit difference.
\<close>

definition ddiv :: "real \<Rightarrow> real \<Rightarrow> fault + real" where
  "ddiv a b = (if b = 0 then Inl NotFinite else Inr (a / b))"

definition size_diff :: "nat \<Rightarrow> nat \<Rightarrow> nat" where
  "size_diff end0 start = unat ((of_nat end0 :: u64) - of_nat start)"

definition mf_array_dsum_range :: "real list \<Rightarrow> nat \<Rightarrow> nat \<Rightarrow> fault + real" where
  "mf_array_dsum_range v start end0 =
     for_loop start end0 (\<lambda>i vsum. then_do (rd v i) (\<lambda>vi. Inr (vsum + vi))) 0"

definition mf_array_dmean_range :: "real list \<Rightarrow> nat \<Rightarrow> nat \<Rightarrow> fault + real" where
  "mf_array_dmean_range v start end0 =
     then_do (mf_array_dsum_range v start end0) (\<lambda>vsum. ddiv vsum (real (size_diff end0 start)))"

definition mf_array_dsd_range :: "real list \<Rightarrow> nat \<Rightarrow> nat \<Rightarrow> fault + real" where
  "mf_array_dsd_range v start end0 =
     then_do (mf_array_dmean_range v start end0) (\<lambda>vmean.
     then_do (for_loop start end0 (\<lambda>i vvar.
                then_do (rd v i) (\<lambda>vi. Inr (vvar + (vi - vmean) * (vi - vmean)))) 0) (\<lambda>vvar.
     then_do (ddiv vvar (real (unat ((of_nat end0 :: u64) - of_nat start - 1)))) (\<lambda>r.
     Inr (sqrt r))))"

definition mf_array_dmin_range :: "real list \<Rightarrow> nat \<Rightarrow> nat \<Rightarrow> fault + real" where
  "mf_array_dmin_range v start end0 =
     then_do (rd v start) (\<lambda>v0.
     for_loop (start + 1) end0 (\<lambda>i m. then_do (rd v i) (\<lambda>vi. Inr (if m > vi then vi else m))) v0)"

definition mf_array_dmax_range :: "real list \<Rightarrow> nat \<Rightarrow> nat \<Rightarrow> fault + real" where
  "mf_array_dmax_range v start end0 =
     then_do (rd v start) (\<lambda>v0.
     for_loop (start + 1) end0 (\<lambda>i m. then_do (rd v i) (\<lambda>vi. Inr (if m < vi then vi else m))) v0)"

text \<open>
  Modelled from the spec: \<open>mf_qselect_range\<close> (qselect.c) is missing from the sources.
  Section 4.F: it runs "an in-place partition-selection to place the qth order statistic
  at position q within V[start..end)" and returns that value; the reducer "makes no
  promise about the post-call ordering of V". The model returns the order statistic and
  does not track the reordering of the slice: every result below depends on the slice
  as a multiset only.
\<close>

definition mf_qselect_range :: "real list \<Rightarrow> nat \<Rightarrow> nat \<Rightarrow> nat \<Rightarrow> fault + real" where
  "mf_qselect_range v start end0 k =
     (if start \<le> end0 \<and> end0 \<le> length v \<and> k < end0 - start
      then Inr (sort (take (end0 - start) (drop start v)) ! k)
      else Inl OutOfBounds)"

text \<open>
  \<open>mf_array_dquantile_range\<close> branches on doubles: on \<open>floor(quantile * N / 100)\<close> and on
  the test \<open>(double) qth == quantile * N / 100\<close>. Here the rounding of double arithmetic
  is not left out: \<open>fl\<close>, a parameter of the model, maps a real number to the double that
  the machine stores for it, and it is applied to the conversion of \<open>N\<close> and of \<open>qth\<close>, to
  the product, to the quotient, to the sum and the halving of the two order statistics, and
  to the difference of the two quantiles in \<open>mf_array_diqr_range\<close>.
  \<open>size_t qth = floor(quantile * N / 100)\<close> converts a double to an unsigned integer, a
  fault when the value is negative or too large; it is evaluated before \<open>N\<close> is looked at.
\<close>

definition mf_array_dquantile_range ::
  "(real \<Rightarrow> real) \<Rightarrow> real list \<Rightarrow> nat \<Rightarrow> nat \<Rightarrow> real \<Rightarrow> fault + real" where
  "mf_array_dquantile_range fl v start end0 quantile =
     (let N = size_diff end0 start;
          pN = fl (fl (quantile * fl (real N)) / 100)
      in if \<lfloor>pN\<rfloor> < 0 \<or> 2 ^ 64 \<le> \<lfloor>pN\<rfloor> then Inl Overflow
         else
           let qth = nat \<lfloor>pN\<rfloor>
           in if N = 1 then rd v start
              else if N = 2
              then then_do (rd v start) (\<lambda>a.
                   then_do (rd v (end0 - 1)) (\<lambda>b.
                   if quantile > 50 then Inr (if a > b then a else b)
                   else if quantile < 50 then Inr (if a > b then b else a)
                   else Inr (fl (fl (a + b) / 2))))
              else if qth = 0 then mf_array_dmin_range v start end0
              else
                then_do (if qth = N - 1 then mf_array_dmax_range v start end0
                         else mf_qselect_range v start end0 qth) (\<lambda>q.
                if fl (real qth) = pN
                then then_do (mf_qselect_range v start end0 (qth - 1))
                       (\<lambda>q2. Inr (fl (fl (q + q2) / 2)))
                else Inr q))"

definition mf_array_dmedian_range :: "(real \<Rightarrow> real) \<Rightarrow> real list \<Rightarrow> nat \<Rightarrow> nat \<Rightarrow> fault + real" where
  "mf_array_dmedian_range fl v start end0 = mf_array_dquantile_range fl v start end0 50"

definition mf_array_diqr_range :: "(real \<Rightarrow> real) \<Rightarrow> real list \<Rightarrow> nat \<Rightarrow> nat \<Rightarrow> fault + real" where
  "mf_array_diqr_range fl v start end0 =
     then_do (mf_array_dquantile_range fl v start end0 75) (\<lambda>q75.
     then_do (mf_array_dquantile_range fl v start end0 25) (\<lambda>q25.
     Inr (fl (q75 - q25))))"

section \<open>Dispatch\<close>

text \<open>
  \<open>atof\<close> is the C library's parser of a decimal string; it is a parameter of the three
  wrappers. \<open>fl\<close> is handed on to the quantile routine.
\<close>

definition mf_switch_fun ::
  "(real \<Rightarrow> real) \<Rightarrow> (string \<Rightarrow> real) \<Rightarrow> string \<Rightarrow> real list \<Rightarrow> nat \<Rightarrow> nat \<Rightarrow> fault + real" where
  "mf_switch_fun fl atof fname v start end0 =
     (if fname = ''sum'' then mf_array_dsum_range v start end0
      else if fname = ''mean'' then mf_array_dmean_range v start end0
      else if fname = ''sd'' then mf_array_dsd_range v start end0
      else if fname = ''max'' then mf_array_dmax_range v start end0
      else if fname = ''min'' then mf_array_dmin_range v start end0
      else if fname = ''median'' then mf_array_dmedian_range fl v start end0
      else if fname = ''iqr'' then mf_array_diqr_range fl v start end0
      else let q = atof fname
           in if q > 0 then mf_array_dquantile_range fl v start end0 q else Inr 0)"

definition mf_code_fun :: "(string \<Rightarrow> real) \<Rightarrow> string \<Rightarrow> real" where
  "mf_code_fun atof fname =
     (if fname = ''sum'' then - 1
      else if fname = ''mean'' then - 2
      else if fname = ''sd'' then - 3
      else if fname = ''max'' then - 4
      else if fname = ''min'' then - 5
      else if fname = ''count'' then - 6
      else if fname = ''percent'' then - 7
      else if fname = ''median'' then 50
      else if fname = ''iqr'' then - 9
      else if fname = ''first'' then - 10
      else if fname = ''firstnm'' then - 11
      else if fname = ''last'' then - 12
      else if fname = ''lastnm'' then - 13
      else let q = atof fname in if q > 0 then q else 0)"

definition mf_switch_fun_code ::
  "(real \<Rightarrow> real) \<Rightarrow> real \<Rightarrow> real list \<Rightarrow> nat \<Rightarrow> nat \<Rightarrow> fault + real" where
  "mf_switch_fun_code fl fcode v start end0 =
     (if fcode = - 1 then mf_array_dsum_range v start end0
      else if fcode = - 2 then mf_array_dmean_range v start end0
      else if fcode = - 3 then mf_array_dsd_range v start end0
      else if fcode = - 4 then mf_array_dmax_range v start end0
      else if fcode = - 5 then mf_array_dmin_range v start end0
      else if fcode = - 9 then mf_array_diqr_range fl v start end0
      else mf_array_dquantile_range fl v start end0 fcode)"

section \<open>The reductions of section 4.F, in the words of the specification\<close>

text \<open>
  For the comparison with the dispatch: the slice \<open>V[start..end)\<close>, "count" (the number of
  its entries), "first" and "last" (its first and last entry), "sum" (straight
  accumulation), "mean" (\<open>sum / N\<close>), "min"/"max" and "sd" (\<open>sqrt(\<Sum>(V[i] - mean)\<^sup>2 / (N - 1))\<close>).
\<close>

definition spec_slice :: "real list \<Rightarrow> nat \<Rightarrow> nat \<Rightarrow> real list" where
  "spec_slice v start end0 = take (end0 - start) (drop start v)"

definition spec_count :: "real list \<Rightarrow> nat \<Rightarrow> nat \<Rightarrow> real" where
  "spec_count v start end0 = real (length (spec_slice v start end0))"

definition spec_first :: "real list \<Rightarrow> nat \<Rightarrow> nat \<Rightarrow> real" where
  "spec_first v start end0 = hd (spec_slice v start end0)"

definition spec_last :: "real list \<Rightarrow> nat \<Rightarrow> nat \<Rightarrow> real" where
  "spec_last v start end0 = last (spec_slice v start end0)"

definition spec_sum :: "real list \<Rightarrow> nat \<Rightarrow> nat \<Rightarrow> real" where
  "spec_sum v start end0 = sum_list (spec_slice v start end0)"

definition spec_mean :: "real list \<Rightarrow> nat \<Rightarrow> nat \<Rightarrow> real" where
  "spec_mean v start end0 = spec_sum v start end0 / real (length (spec_slice v start end0))"

definition spec_min :: "real list \<Rightarrow> nat \<Rightarrow> nat \<Rightarrow> real" where
  "spec_min v start end0 = Min (set (spec_slice v start end0))"

definition spec_max :: "real list \<Rightarrow> nat \<Rightarrow> nat \<Rightarrow> real" where
  "spec_max v start end0 = Max (set (spec_slice v start end0))"

definition spec_sd :: "real list \<Rightarrow> nat \<Rightarrow> nat \<Rightarrow> real" where
  "spec_sd v start end0 =
     sqrt ((\<Sum>x\<leftarrow>spec_slice v start end0. (x - spec_mean v start end0) * (x - spec_mean v start end0))
           / real (length (spec_slice v start end0) - 1))"

section \<open>The place of a row in a stable sort\<close>

text \<open>
  For the statements about the sorts: of a list of keys \<open>ks\<close>, the number of keys below
  \<open>b\<close>, the number of keys equal to \<open>b\<close>, and the \<open>slot\<close> of row \<open>j\<close>: the keys below its
  own, plus the rows before it that have its key. A stable sort puts row \<open>j\<close> there.
\<close>

definition keys_below :: "nat list \<Rightarrow> nat \<Rightarrow> nat" where
  "keys_below ks b = length (filter (\<lambda>k. k < b) ks)"

definition keys_equal :: "nat list \<Rightarrow> nat \<Rightarrow> nat" where
  "keys_equal ks b = length (filter (\<lambda>k. k = b) ks)"

definition slot :: "nat list \<Rightarrow> nat \<Rightarrow> nat" where
  "slot ks j = keys_below ks (ks ! j) + keys_equal (take j ks) (ks ! j)"

text \<open>
  The stores of a redistribution loop after \<open>n\<close> rows: row \<open>j\<close> is stored at its slot. And
  the table of a digit after \<open>n\<close> rows have been counted (\<open>counted\<close>), or redistributed
  (\<open>offsets_after\<close>: the keys below the digit, plus the rows already stored). While the
  counts are turned into offsets, the entries below \<open>i\<close> are offsets already and the
  others are still counts (\<open>prefixed\<close>).
\<close>

definition scatter :: "nat list \<Rightarrow> 'a list \<Rightarrow> 'a list \<Rightarrow> nat \<Rightarrow> 'a list" where
  "scatter ks zs dst n = fold (\<lambda>j d. d[slot ks j := zs ! j]) [0..<n] dst"

definition counted :: "nat list \<Rightarrow> nat \<Rightarrow> nat \<Rightarrow> 'w::len word list" where
  "counted ks S n = map (\<lambda>b. of_nat (keys_equal (take n ks) b)) [0..<S]"

definition offsets_after :: "nat list \<Rightarrow> nat \<Rightarrow> nat \<Rightarrow> 'w::len word list" where
  "offsets_after ks S n = map (\<lambda>b. of_nat (keys_below ks b + keys_equal (take n ks) b)) [0..<S]"

definition prefixed :: "nat list \<Rightarrow> nat \<Rightarrow> nat \<Rightarrow> 'w::len word list" where
  "prefixed ks S i = map (\<lambda>b. of_nat (if b < i then keys_below ks b else keys_equal ks b)) [0..<S]"

text \<open>
  The table of the counting sort while its counts are accumulated: entry \<open>b + 1\<close> counts
  the key \<open>b\<close>, and the entries below \<open>m\<close> are offsets already.
\<close>

definition cumulated :: "nat list \<Rightarrow> nat \<Rightarrow> nat \<Rightarrow> 'w::len word list" where
  "cumulated ks S m =
     map (\<lambda>b. of_nat (if b < m then keys_below ks b else keys_equal ks (b - 1))) [0..<S]"

text \<open>
  The table of \<open>mf_radix_sort_index_pass\<close> while its counts are accumulated in place: the
  entries below \<open>m\<close> already hold the number of keys up to and including the digit. Its
  redistribution loop runs from the last row down to the first.
\<close>

definition accumulated :: "nat list \<Rightarrow> nat \<Rightarrow> nat \<Rightarrow> 'w::len word list" where
  "accumulated ks S m =
     map (\<lambda>b. of_nat (if b < m then keys_below ks (Suc b) else keys_equal ks b)) [0..<S]"

definition scatter_down :: "nat list \<Rightarrow> 'a list \<Rightarrow> 'a list \<Rightarrow> nat \<Rightarrow> 'a list" where
  "scatter_down ks zs dst n = fold (\<lambda>j d. d[slot ks j := zs ! j]) (rev [0..<n]) dst"

text \<open>
  What the specification asks of a stable sort, on the arrays before and after the call:
  every input row \<open>i\<close> has an output position \<open>pos i\<close> holding its key and its index
  entry, no two rows share a position, and of two rows with the same sort key the earlier
  one has the earlier position. A routine sorts stably when it returns 0 with such arrays,
  the keys in order of the sort key.
\<close>

definition stable_output ::
  "(u64 \<Rightarrow> nat) \<Rightarrow> u64 list \<Rightarrow> u64 list \<Rightarrow> u64 list \<Rightarrow> u64 list \<Rightarrow> bool" where
  "stable_output key H I H' I' \<longleftrightarrow>
     length H' = length H \<and> length I' = length H \<and>
     (\<exists>pos. bij_betw pos {..<length H} {..<length H} \<and>
        (\<forall>i < length H. H' ! pos i = H ! i \<and> I' ! pos i = I ! i) \<and>
        (\<forall>i j. i < j \<and> j < length H \<and> key (H ! i) = key (H ! j) \<longrightarrow> pos i < pos j))"

definition sorts_stably ::
  "(u64 \<Rightarrow> nat) \<Rightarrow> u64 list \<Rightarrow> u64 list \<Rightarrow> fault + (retcode \<times> u64 list \<times> u64 list) \<Rightarrow> bool" where
  "sorts_stably key H I r \<longleftrightarrow>
     (\<exists>H' I'. r = Inr (RC_OK, H', I') \<and> sorted (map key H') \<and> stable_output key H I H' I')"

section \<open>Running the model\<close>

lemma then_do_Inl [simp]: "then_do (Inl e) f = Inl e"
  by (simp add: then_do_def)

lemma then_do_Inr [simp]: "then_do (Inr v) f = f v"
  by (simp add: then_do_def)

lemma rd_in [simp]: "i < length a \<Longrightarrow> rd a i = Inr (a ! i)"
  by (simp add: rd_def)

lemma rd_out [simp]: "length a \<le> i \<Longrightarrow> rd a i = Inl OutOfBounds"
  by (simp add: rd_def)

lemma wr_in [simp]: "i < length a \<Longrightarrow> wr a i v = Inr (a[i := v])"
  by (simp add: wr_def)

lemma wr_out [simp]: "length a \<le> i \<Longrightarrow> wr a i v = Inl OutOfBounds"
  by (simp add: wr_def)

lemma fold_then_do_Inl: "fold (\<lambda>i r. then_do r (body i)) xs (Inl e) = Inl e"
  by (induction xs) simp_all

lemma fold_then_do:
  "fold (\<lambda>i r. then_do r (body i)) xs r0 =
   then_do r0 (\<lambda>s. fold (\<lambda>i r. then_do r (body i)) xs (Inr s))"
  by (cases r0) (simp_all add: fold_then_do_Inl)

lemma for_loop_empty [simp]: "hi \<le> lo \<Longrightarrow> for_loop lo hi body s = Inr s"
  by (simp add: for_loop_def)

lemma for_loop_first:
  "lo < hi \<Longrightarrow> for_loop lo hi body s = then_do (body lo s) (for_loop (lo + 1) hi body)"
proof -
  assume "lo < hi"
  then have "[lo..<hi] = lo # [lo + 1..<hi]"
    by (simp add: upt_conv_Cons)
  then have "for_loop lo hi body s =
               fold (\<lambda>i r. then_do r (body i)) [lo + 1..<hi] (body lo s)"
    by (simp add: for_loop_def)
  also have "\<dots> = then_do (body lo s) (\<lambda>s. fold (\<lambda>i r. then_do r (body i)) [lo + 1..<hi] (Inr s))"
    by (rule fold_then_do)
  finally show ?thesis
    by (simp add: for_loop_def [abs_def])
qed

lemma for_loop_unroll:
  "for_loop lo hi body s =
     (if lo < hi then then_do (body lo s) (for_loop (lo + 1) hi body) else Inr s)"
  by (simp add: for_loop_first)

lemma for_loop_Suc:
  "lo \<le> hi \<Longrightarrow> for_loop lo (Suc hi) body s = then_do (for_loop lo hi body s) (body hi)"
  by (simp add: for_loop_def)

lemma for_down_Suc:
  "for_down (Suc N) body s = then_do (body N s) (for_down N body)"
proof -
  have "for_down (Suc N) body s = fold (\<lambda>i r. then_do r (body i)) (rev [0..<N]) (body N s)"
    by (simp add: for_down_def)
  also have "\<dots> = then_do (body N s) (\<lambda>s. fold (\<lambda>i r. then_do r (body i)) (rev [0..<N]) (Inr s))"
    by (rule fold_then_do)
  finally show ?thesis
    by (simp add: for_down_def [abs_def])
qed

lemma for_down_0 [simp]: "for_down 0 body s = Inr s"
  by (simp add: for_down_def)

lemma for_int_small [simp]: "hi < 2 ^ 31 \<Longrightarrow> for_int lo hi body s = for_loop lo hi body s"
  by (simp add: for_int_def)

lemma calloc_ok [simp]: "calloc [] fn var n = Some (replicate n 0)"
  by (simp add: calloc_def)

section \<open>The reducers compute the reductions of section 4.F\<close>

lemma spec_slice_Suc:
  "start + k < length v \<Longrightarrow>
   spec_slice v start (start + Suc k) = spec_slice v start (start + k) @ [v ! (start + k)]"
  by (simp add: spec_slice_def take_Suc_conv_app_nth)

lemma dsum_loop:
  "start + k \<le> length v \<Longrightarrow>
   for_loop start (start + k) (\<lambda>i vsum. then_do (rd v i) (\<lambda>vi. Inr (vsum + vi))) a =
     Inr (a + sum_list (spec_slice v start (start + k)))"
proof (induction k)
  case 0
  then show ?case by (simp add: spec_slice_def)
next
  case (Suc k)
  then have lt: "start + k < length v" by simp
  have step: "for_loop start (start + Suc k) body s =
        then_do (for_loop start (start + k) body s) (body (start + k))" for body s
    using for_loop_Suc [of start "start + k" body s] by simp
  from Suc lt show ?case
    by (simp add: step spec_slice_Suc del: add_Suc_right)
qed

lemma mf_array_dsum_range_eq:
  assumes "start \<le> end0" "end0 \<le> length v"
  shows "mf_array_dsum_range v start end0 = Inr (spec_sum v start end0)"
proof -
  from assms have "start + (end0 - start) \<le> length v" by simp
  from dsum_loop [OF this, of 0] assms show ?thesis
    by (simp add: mf_array_dsum_range_def spec_sum_def)
qed

lemma dmin_loop:
  "Suc (start + k) \<le> length v \<Longrightarrow>
   for_loop (Suc start) (Suc (start + k))
     (\<lambda>i m. then_do (rd v i) (\<lambda>vi. Inr (if m > vi then vi else m))) (v ! start) =
     Inr (Min (set (spec_slice v start (Suc (start + k)))))"
proof (induction k)
  case 0
  then show ?case by (simp add: spec_slice_def take_Suc_conv_app_nth)
next
  case (Suc k)
  let ?B = "\<lambda>i m. then_do (rd v i) (\<lambda>vi. Inr (if m > vi then vi else m))"
  let ?A = "set (spec_slice v start (Suc (start + k)))"
  from Suc.prems have lt: "Suc (start + k) < length v" by simp
  have ne: "?A \<noteq> {}" and fin: "finite ?A"
    using lt by (simp_all add: spec_slice_def)
  have ins: "Min (insert x ?A) = min x (Min ?A)" for x
    by (rule Min_insert [OF fin ne])
  have sl: "set (spec_slice v start (Suc (start + Suc k))) = insert (v ! Suc (start + k)) ?A"
    using lt spec_slice_Suc [of start "Suc k" v] by simp
  have "for_loop (Suc start) (Suc (start + Suc k)) ?B (v ! start) =
        then_do (for_loop (Suc start) (Suc (start + k)) ?B (v ! start)) (?B (Suc (start + k)))"
    using for_loop_Suc [of "Suc start" "Suc (start + k)" ?B] by simp
  also have "\<dots> = then_do (Inr (Min ?A)) (?B (Suc (start + k)))"
    using Suc.IH lt by simp
  also have "\<dots> = Inr (min (v ! Suc (start + k)) (Min ?A))"
    using lt by (auto simp: min_def)
  finally show ?case
    by (simp only: sl ins)
qed

lemma dmax_loop:
  "Suc (start + k) \<le> length v \<Longrightarrow>
   for_loop (Suc start) (Suc (start + k))
     (\<lambda>i m. then_do (rd v i) (\<lambda>vi. Inr (if m < vi then vi else m))) (v ! start) =
     Inr (Max (set (spec_slice v start (Suc (start + k)))))"
proof (induction k)
  case 0
  then show ?case by (simp add: spec_slice_def take_Suc_conv_app_nth)
next
  case (Suc k)
  let ?B = "\<lambda>i m. then_do (rd v i) (\<lambda>vi. Inr (if m < vi then vi else m))"
  let ?A = "set (spec_slice v start (Suc (start + k)))"
  from Suc.prems have lt: "Suc (start + k) < length v" by simp
  have ne: "?A \<noteq> {}" and fin: "finite ?A"
    using lt by (simp_all add: spec_slice_def)
  have ins: "Max (insert x ?A) = max x (Max ?A)" for x
    by (rule Max_insert [OF fin ne])
  have sl: "set (spec_slice v start (Suc (start + Suc k))) = insert (v ! Suc (start + k)) ?A"
    using lt spec_slice_Suc [of start "Suc k" v] by simp
  have "for_loop (Suc start) (Suc (start + Suc k)) ?B (v ! start) =
        then_do (for_loop (Suc start) (Suc (start + k)) ?B (v ! start)) (?B (Suc (start + k)))"
    using for_loop_Suc [of "Suc start" "Suc (start + k)" ?B] by simp
  also have "\<dots> = then_do (Inr (Max ?A)) (?B (Suc (start + k)))"
    using Suc.IH lt by simp
  also have "\<dots> = Inr (max (v ! Suc (start + k)) (Max ?A))"
    using lt by (auto simp: max_def)
  finally show ?case
    by (simp only: sl ins)
qed

lemma mf_array_dmin_range_eq:
  assumes "start < end0" "end0 \<le> length v"
  shows "mf_array_dmin_range v start end0 = Inr (spec_min v start end0)"
proof -
  obtain k where k: "end0 = start + Suc k"
    using assms(1) less_iff_Suc_add by auto
  with assms have "Suc (start + k) \<le> length v" by simp
  from dmin_loop [OF this] k assms show ?thesis
    by (simp add: mf_array_dmin_range_def spec_min_def)
qed

lemma mf_array_dmax_range_eq:
  assumes "start < end0" "end0 \<le> length v"
  shows "mf_array_dmax_range v start end0 = Inr (spec_max v start end0)"
proof -
  obtain k where k: "end0 = start + Suc k"
    using assms(1) less_iff_Suc_add by auto
  with assms have "Suc (start + k) \<le> length v" by simp
  from dmax_loop [OF this] k assms show ?thesis
    by (simp add: mf_array_dmax_range_def spec_max_def)
qed

lemma size_diff_eq: "start \<le> end0 \<Longrightarrow> end0 < 2 ^ 64 \<Longrightarrow> size_diff end0 start = end0 - start"
  by (simp add: size_diff_def unat_of_nat flip: of_nat_diff)

lemma mf_array_dmean_range_eq:
  assumes "start < end0" "end0 \<le> length v" "end0 < 2 ^ 64"
  shows "mf_array_dmean_range v start end0 = Inr (spec_mean v start end0)"
  using assms
  by (simp add: mf_array_dmean_range_def mf_array_dsum_range_eq size_diff_eq ddiv_def spec_mean_def
      spec_slice_def)


lemma dvar_loop:
  "start + k \<le> length v \<Longrightarrow>
   for_loop start (start + k) (\<lambda>i vvar. then_do (rd v i) (\<lambda>vi. Inr (vvar + (vi - m) * (vi - m)))) a =
     Inr (a + (\<Sum>x\<leftarrow>spec_slice v start (start + k). (x - m) * (x - m)))"
proof (induction k)
  case 0
  then show ?case by (simp add: spec_slice_def)
next
  case (Suc k)
  then have lt: "start + k < length v" by simp
  have step: "for_loop start (start + Suc k) body s =
        then_do (for_loop start (start + k) body s) (body (start + k))" for body s
    using for_loop_Suc [of start "start + k" body s] by simp
  from Suc lt show ?case
    by (simp add: step spec_slice_Suc del: add_Suc_right)
qed

lemma mf_array_dsd_range_eq:
  assumes "start + 1 < end0" "end0 \<le> length v" "end0 < 2 ^ 64"
  shows "mf_array_dsd_range v start end0 = Inr (spec_sd v start end0)"
proof -
  from assms have le: "start + (end0 - start) \<le> length v" by simp
  have len: "length (spec_slice v start end0) = end0 - start"
    using assms by (simp add: spec_slice_def)
  define M where "M = end0 - start - 1"
  have eq: "(of_nat end0 :: u64) - of_nat start - 1 = of_nat M"
    using assms by (simp add: M_def of_nat_diff)
  have "M < 2 ^ 64" using assms by (simp add: M_def)
  then have "unat (of_nat M :: u64) = M" by (simp add: unat_of_nat)
  then have d: "unat ((of_nat end0 :: u64) - of_nat start - 1) = end0 - start - 1"
    by (simp only: eq M_def)
  from dvar_loop [OF le, of "spec_mean v start end0" 0] assms show ?thesis
    by (simp add: mf_array_dsd_range_def mf_array_dmean_range_eq d ddiv_def spec_sd_def len)
qed

lemma quantile_rule:
  fixes fl :: "real \<Rightarrow> real"
  assumes "start < end0" "end0 \<le> length v" "end0 < 2 ^ 64"
      and c: "c = fl (fl (p * fl (real (end0 - start))) / 100)"
      and c0: "0 \<le> c" "c < 2 ^ 64" and cN: "3 \<le> end0 - start \<longrightarrow> c < real (end0 - start)"
  shows "mf_array_dquantile_range fl v start end0 p =
     Inr (let N = end0 - start; q = nat \<lfloor>c\<rfloor>; a = v ! start; b = v ! (end0 - 1);
              stat = (\<lambda>k. sort (spec_slice v start end0) ! k)
          in if N = 1 then a
             else if N = 2
             then (if p > 50 then max a b else if p < 50 then min a b else fl (fl (a + b) / 2))
             else if q = 0 then spec_min v start end0
             else let top = (if q = N - 1 then spec_max v start end0 else stat q)
                  in if fl (real q) = c then fl (fl (top + stat (q - 1)) / 2) else top)"
proof -
  define N where "N = end0 - start"
  have sd: "size_diff end0 start = N"
    using assms by (simp add: size_diff_eq N_def)
  have N1: "1 \<le> N" using assms by (simp add: N_def)
  have fl0: "0 \<le> \<lfloor>c\<rfloor>" using c0 by simp
  have "\<lfloor>c\<rfloor> \<le> c" by simp
  with c0 have "real_of_int \<lfloor>c\<rfloor> < 2 ^ 64" by linarith
  then have big: "\<not> 2 ^ 64 \<le> \<lfloor>c\<rfloor>"
    by (metis not_le of_int_le_iff of_int_numeral of_int_power)
  have cf: "(\<lfloor>c\<rfloor> < 0 \<or> 2 ^ 64 \<le> \<lfloor>c\<rfloor>) = False"
    using fl0 big by simp
  have unf: "mf_array_dquantile_range fl v start end0 p =
     (if N = 1 then rd v start
      else if N = 2
      then then_do (rd v start) (\<lambda>a.
           then_do (rd v (end0 - 1)) (\<lambda>b.
           if p > 50 then Inr (if a > b then a else b)
           else if p < 50 then Inr (if a > b then b else a)
           else Inr (fl (fl (a + b) / 2))))
      else if nat \<lfloor>c\<rfloor> = 0 then mf_array_dmin_range v start end0
      else then_do (if nat \<lfloor>c\<rfloor> = N - 1 then mf_array_dmax_range v start end0
                    else mf_qselect_range v start end0 (nat \<lfloor>c\<rfloor>)) (\<lambda>q.
           if fl (real (nat \<lfloor>c\<rfloor>)) = c
           then then_do (mf_qselect_range v start end0 (nat \<lfloor>c\<rfloor> - 1))
                  (\<lambda>q2. Inr (fl (fl (q + q2) / 2)))
           else Inr q))"
    unfolding c N_def [symmetric]
    by (simp only: mf_array_dquantile_range_def Let_def sd c [unfolded N_def [symmetric], symmetric]
        cf if_False)
  have r0: "rd v start = Inr (v ! start)" using assms by simp
  have r1: "rd v (end0 - 1) = Inr (v ! (end0 - 1))" using assms by simp
  consider "N = 1" | "N = 2" | "3 \<le> N" using N1 by linarith
  then show ?thesis
  proof cases
    case 1
    then show ?thesis
      unfolding unf Let_def N_def [symmetric] by (simp add: r0)
  next
    case 2
    then show ?thesis
      unfolding unf Let_def N_def [symmetric] using r1 by (auto simp: r0 max_def min_def)
  next
    case 3
    then have n12: "(N = 1) = False" "(N = 2) = False" by simp_all
    have "c < real N" using cN 3 by (simp add: N_def)
    then have flt: "\<lfloor>c\<rfloor> < int N" by linarith
    have q: "nat \<lfloor>c\<rfloor> < N" using flt fl0 by linarith
    have q1: "nat \<lfloor>c\<rfloor> - Suc 0 < N" using q by simp
    have le: "start \<le> end0" using assms by simp
    have sel: "k < N \<Longrightarrow> mf_qselect_range v start end0 k = Inr (sort (spec_slice v start end0) ! k)" for k
      using le assms(2) by (simp add: mf_qselect_range_def spec_slice_def N_def)
    have sel1: "mf_qselect_range v start end0 (nat \<lfloor>c\<rfloor> - 1) =
                  Inr (sort (spec_slice v start end0) ! (nat \<lfloor>c\<rfloor> - 1))"
      using q1 by (intro sel) simp
    have "mf_array_dquantile_range fl v start end0 p =
       Inr (let q = nat \<lfloor>c\<rfloor>; stat = (\<lambda>k. sort (spec_slice v start end0) ! k)
            in if q = 0 then spec_min v start end0
               else let top = (if q = N - 1 then spec_max v start end0 else stat q)
                    in if fl (real q) = c then fl (fl (top + stat (q - 1)) / 2) else top)"
      unfolding unf
      by (simp only: n12 if_False Let_def mf_array_dmin_range_eq [OF assms(1) assms(2)]
          mf_array_dmax_range_eq [OF assms(1) assms(2)]
          sel [OF q] sel1 then_do_Inr if_distrib [of Inr, symmetric]
          if_distrib [of "\<lambda>r. then_do r f" for f] cong: if_cong)
    then show ?thesis
      unfolding Let_def N_def [symmetric] by (simp only: n12 if_False)
  qed
qed

section \<open>Panel setup on short inputs\<close>

text \<open>
  C4 (the code departs from the claim). For \<open>N = 0\<close> and for the singleton \<open>H = [42]\<close> both
  panel builders run the body of their \<open>do ... while\<close> once before \<open>i < N\<close> is tested:
  they read \<open>h1[0]\<close> of an empty array, or \<open>h1[1]\<close> of an array of one element. Neither
  call gets as far as returning \<open>J\<close>.
\<close>

theorem panelsetup_short_inputs:
  "mf_panelsetup [] [] 0 = Inl OutOfBounds \<and>
   mf_panelsetup [] [42] 1 = Inl OutOfBounds \<and>
   mf_panelsetup128 stack rawloops [] 16 [] [] [] 0 = Inl OutOfBounds \<and>
   mf_panelsetup128 stack rawloops [] 16 [42] [7] [0] 1 = Inl OutOfBounds"
  by (simp add: mf_panelsetup_def mf_panelsetup128_def mf_panelsetup128_body_def)

text \<open>
  With two equal keys in an array of two elements the same call for \<open>N = 1\<close> stays in
  bounds and returns \<open>info = [0, 1]\<close>, \<open>J = 1\<close>: the read of \<open>h1[1]\<close> is what decides.
\<close>

lemma panelsetup_singleton_in_larger_array:
  "mf_panelsetup [] [42, 42] 1 = Inr (Some [0, 1], 1)"
  by (simp add: mf_panelsetup_def for_loop_unroll)

section \<open>The 128-bit panel setup on the collision example\<close>

text \<open>
  C3 (the code departs from the claim). On \<open>H1 = [7,7,7]\<close>, \<open>H2 = [2,1,2]\<close>, \<open>I = [0,1,2]\<close>
  the second halves are compared only when a key different from \<open>el\<close> is met; the last
  block ends at \<open>N\<close> and is never checked. The call returns \<open>info = [0,3]\<close> and \<open>J = 1\<close>,
  leaves \<open>I = [0,1,2]\<close> and counts no collision, whatever \<open>RADIX_SHIFT\<close> is.
\<close>

theorem panelsetup128_last_block_unchecked:
  "mf_panelsetup128 stack rawloops [] dshift [7, 7, 7] [2, 1, 2] [0, 1, 2] 3 = Inr (Some [0, 3], 1, [0, 1, 2], 0)"
  by (simp add: mf_panelsetup128_def mf_panelsetup128_body_def for_loop_unroll)

section \<open>Quantiles of \<open>[1,2,3,4]\<close>\<close>

lemma quantile_1234:
  fixes fl :: "real \<Rightarrow> real"
  assumes ex: "\<forall>k::int. \<bar>k\<bar> \<le> 600 \<longrightarrow> fl (real_of_int k / 2) = real_of_int k / 2"
  shows "mf_array_dquantile_range fl [1, 2, 3, 4] 0 4 50 = Inr (5 / 2)"
    and "mf_array_dquantile_range fl [1, 2, 3, 4] 0 4 25 = Inr (3 / 2)"
    and "mf_array_dquantile_range fl [1, 2, 3, 4] 0 4 75 = Inr (7 / 2)"
proof -
  have e: "fl 1 = 1" "fl 2 = 2" "fl 3 = 3" "fl 4 = 4" "fl 5 = 5" "fl 7 = 7"
          "fl 100 = 100" "fl 200 = 200" "fl 300 = 300"
          "fl (3 / 2) = 3 / 2" "fl (5 / 2) = 5 / 2" "fl (7 / 2) = 7 / 2"
    using ex [rule_format, of 2] ex [rule_format, of 4] ex [rule_format, of 6]
      ex [rule_format, of 8] ex [rule_format, of 10] ex [rule_format, of 14]
      ex [rule_format, of 200] ex [rule_format, of 400] ex [rule_format, of 600]
      ex [rule_format, of 3] ex [rule_format, of 5] ex [rule_format, of 7]
    by simp_all
  show "mf_array_dquantile_range fl [1, 2, 3, 4] 0 4 50 = Inr (5 / 2)"
       "mf_array_dquantile_range fl [1, 2, 3, 4] 0 4 25 = Inr (3 / 2)"
       "mf_array_dquantile_range fl [1, 2, 3, 4] 0 4 75 = Inr (7 / 2)"
    by (simp_all add: mf_array_dquantile_range_def size_diff_def mf_qselect_range_def
        mf_array_dmax_range_def mf_array_dmin_range_def for_loop_unroll e)
qed

text \<open>
  C5 as stated fails: the quantile routine averages the \<open>q\<close>th order statistic with the
  one below it whenever \<open>p * N / 100\<close> is an integer, also when \<open>q = N - 1\<close>. So
  \<open>quantile(25)\<close> of \<open>[1,2,3,4]\<close> is 1.5, not 1, and \<open>quantile(75)\<close> is 3.5, not 3. Every
  product, quotient and sum of these three runs is an integer or a half below 301, which
  double arithmetic computes exactly: the rounding is the identity here.
\<close>

theorem quantile_1234_counterexample:
  "\<not> (mf_array_dquantile_range (\<lambda>x. x) [1, 2, 3, 4] 0 4 50 = Inr (5 / 2) \<and>
      mf_array_dquantile_range (\<lambda>x. x) [1, 2, 3, 4] 0 4 25 = Inr 1 \<and>
      mf_array_dquantile_range (\<lambda>x. x) [1, 2, 3, 4] 0 4 75 = Inr 3 \<and>
      mf_array_diqr_range (\<lambda>x. x) [1, 2, 3, 4] 0 4 = Inr 2)"
  by (simp add: quantile_1234)

text \<open>
  C5 amended. For \<open>V = [1,2,3,4]\<close> over the full range, on a machine whose doubles hold
  the integers and halves up to 300, \<open>quantile(50) = 2.5\<close>, \<open>quantile(25) = 1.5\<close>,
  \<open>quantile(75) = 3.5\<close> and \<open>iqr = 2\<close>. The rule, for a slice of \<open>N \<ge> 1\<close> entries inside
  the array, with \<open>c\<close> the double that the machine computes for \<open>p * N / 100\<close> (not
  negative, and \<open>c < N\<close> when \<open>N \<ge> 3\<close>) and \<open>q = floor(c)\<close>: one entry is returned as it
  is; of two entries the larger is returned for \<open>p > 50\<close>, the smaller for \<open>p < 50\<close> and
  their mean for \<open>p = 50\<close>; from three entries on, \<open>q = 0\<close> returns the minimum, and
  otherwise the value is the maximum when \<open>q = N - 1\<close> and the \<open>q\<close>th order statistic when
  not, averaged with the \<open>(q - 1)\<close>th order statistic when \<open>c\<close> is the integer \<open>q\<close>.
\<close>

theorem quantile_rule_and_1234:
  fixes fl :: "real \<Rightarrow> real"
  shows
  "(start < end0 \<and> end0 \<le> length v \<and> end0 < 2 ^ 64 \<and>
    c = fl (fl (p * fl (real (end0 - start))) / 100) \<and> 0 \<le> c \<and> c < 2 ^ 64 \<and>
    (3 \<le> end0 - start \<longrightarrow> c < real (end0 - start)) \<longrightarrow>
    mf_array_dquantile_range fl v start end0 p =
      Inr (let N = end0 - start; q = nat \<lfloor>c\<rfloor>; a = v ! start; b = v ! (end0 - 1);
               stat = (\<lambda>k. sort (spec_slice v start end0) ! k)
           in if N = 1 then a
              else if N = 2
              then (if p > 50 then max a b else if p < 50 then min a b else fl (fl (a + b) / 2))
              else if q = 0 then spec_min v start end0
              else let top = (if q = N - 1 then spec_max v start end0 else stat q)
                   in if fl (real q) = c then fl (fl (top + stat (q - 1)) / 2) else top)) \<and>
   ((\<forall>k::int. \<bar>k\<bar> \<le> 600 \<longrightarrow> fl (real_of_int k / 2) = real_of_int k / 2) \<longrightarrow>
    mf_array_dquantile_range fl [1, 2, 3, 4] 0 4 50 = Inr (5 / 2) \<and>
    mf_array_dquantile_range fl [1, 2, 3, 4] 0 4 25 = Inr (3 / 2) \<and>
    mf_array_dquantile_range fl [1, 2, 3, 4] 0 4 75 = Inr (7 / 2) \<and>
    mf_array_diqr_range fl [1, 2, 3, 4] 0 4 = Inr 2)"
proof (intro conjI impI)
  assume a: "start < end0 \<and> end0 \<le> length v \<and> end0 < 2 ^ 64 \<and>
    c = fl (fl (p * fl (real (end0 - start))) / 100) \<and> 0 \<le> c \<and> c < 2 ^ 64 \<and>
    (3 \<le> end0 - start \<longrightarrow> c < real (end0 - start))"
  then have h: "start < end0" "end0 \<le> length v" "end0 < 2 ^ 64"
      "c = fl (fl (p * fl (real (end0 - start))) / 100)" "0 \<le> c" "c < 2 ^ 64"
      "3 \<le> end0 - start \<longrightarrow> c < real (end0 - start)"
    by blast+
  show "mf_array_dquantile_range fl v start end0 p =
      Inr (let N = end0 - start; q = nat \<lfloor>c\<rfloor>; a = v ! start; b = v ! (end0 - 1);
               stat = (\<lambda>k. sort (spec_slice v start end0) ! k)
           in if N = 1 then a
              else if N = 2
              then (if p > 50 then max a b else if p < 50 then min a b else fl (fl (a + b) / 2))
              else if q = 0 then spec_min v start end0
              else let top = (if q = N - 1 then spec_max v start end0 else stat q)
                   in if fl (real q) = c then fl (fl (top + stat (q - 1)) / 2) else top)"
    using h by (intro quantile_rule [where fl = fl and c = c and p = p]) assumption+
next
  assume ex: "\<forall>k::int. \<bar>k\<bar> \<le> 600 \<longrightarrow> fl (real_of_int k / 2) = real_of_int k / 2"
  show "mf_array_dquantile_range fl [1, 2, 3, 4] 0 4 50 = Inr (5 / 2)"
       "mf_array_dquantile_range fl [1, 2, 3, 4] 0 4 25 = Inr (3 / 2)"
       "mf_array_dquantile_range fl [1, 2, 3, 4] 0 4 75 = Inr (7 / 2)"
    by (rule quantile_1234 [OF ex])+
  have two: "fl 2 = 2"
    using ex [rule_format, of 4] by simp
  show "mf_array_diqr_range fl [1, 2, 3, 4] 0 4 = Inr 2"
    by (simp add: mf_array_diqr_range_def quantile_1234 [OF ex] two)
qed

theorem quantile_rule_and_1234_witness:
  "mf_array_dquantile_range (\<lambda>x. x) [1, 2, 3, 4] 0 4 10 = Inr 1 \<and>
   mf_array_dquantile_range (\<lambda>x. x) [1, 2, 3, 4] 0 4 80 = Inr 4 \<and>
   mf_array_dquantile_range (\<lambda>x. x) [10, 20] 0 2 50 = Inr 15 \<and>
   mf_array_dquantile_range (\<lambda>x. x) [10, 20] 0 2 60 = Inr 20 \<and>
   mf_array_dquantile_range (\<lambda>x. x) [10] 0 1 60 = Inr 10 \<and>
   mf_array_dquantile_range (\<lambda>x. x) [1, 2, 3, 4] 0 4 75 = Inr (7 / 2) \<and>
   mf_array_dquantile_range (\<lambda>x. x) [1, 2, 3, 4] 0 4 25 = Inr (3 / 2) \<and>
   mf_array_diqr_range (\<lambda>x. x) [1, 2, 3, 4] 0 4 = Inr 2"
  using quantile_rule_and_1234 [of 0 4 "[1, 2, 3, 4]" "2 / 5" "\<lambda>x. x" 10]
        quantile_rule_and_1234 [of 0 4 "[1, 2, 3, 4]" "16 / 5" "\<lambda>x. x" 80]
        quantile_rule_and_1234 [of 0 2 "[10, 20]" 1 "\<lambda>x. x" 50]
        quantile_rule_and_1234 [of 0 2 "[10, 20]" "6 / 5" "\<lambda>x. x" 60]
        quantile_rule_and_1234 [of 0 1 "[10]" "3 / 5" "\<lambda>x. x" 60]
  by (simp add: spec_min_def spec_max_def spec_slice_def)

section \<open>Dispatch by name and by code\<close>

lemma code_of_names:
  "map (mf_code_fun atof)
     [''sum'', ''mean'', ''sd'', ''max'', ''min'', ''count'', ''percent'', ''median'', ''iqr'',
      ''first'', ''firstnm'', ''last'', ''lastnm''] =
   [- 1, - 2, - 3, - 4, - 5, - 6, - 7, 50, - 9, - 10, - 11, - 12, - 13]"
  by (simp add: mf_code_fun_def)

lemma dispatch_agrees:
  "fname \<in> {''sum'', ''mean'', ''sd'', ''max'', ''min'', ''median'', ''iqr''} \<Longrightarrow>
   mf_switch_fun_code fl (mf_code_fun atof fname) v start end0 = mf_switch_fun fl atof fname v start end0"
  by (elim insertE emptyE)
     (simp_all add: mf_switch_fun_code_def mf_code_fun_def mf_switch_fun_def mf_array_dmedian_range_def)

lemma dispatch_percentile:
  assumes "fname \<notin> {''sum'', ''mean'', ''sd'', ''max'', ''min'', ''count'', ''percent'', ''median'', ''iqr'',
      ''first'', ''firstnm'', ''last'', ''lastnm''}" "0 < atof fname"
  shows "mf_code_fun atof fname = atof fname \<and>
   mf_switch_fun_code fl (mf_code_fun atof fname) v start end0 =
     mf_array_dquantile_range fl v start end0 (atof fname)"
proof -
  from assms(1) have c: "mf_code_fun atof fname = atof fname"
    using assms(2) by (simp add: mf_code_fun_def Let_def)
  from assms(2) have "mf_switch_fun_code fl (atof fname) v start end0 =
     mf_array_dquantile_range fl v start end0 (atof fname)"
    by (simp add: mf_switch_fun_code_def)
  with c show ?thesis by simp
qed

lemma dispatch_unhandled:
  "fcode \<in> {- 6, - 7, - 10, - 11, - 12, - 13} \<Longrightarrow>
   mf_switch_fun_code fl fcode v start end0 = mf_array_dquantile_range fl v start end0 fcode"
  by (elim insertE emptyE) (simp_all add: mf_switch_fun_code_def)

lemma dispatch_spec:
  assumes "start + 1 < end0" "end0 \<le> length v" "end0 < 2 ^ 64"
  shows "mf_switch_fun_code fl (mf_code_fun atof ''sum'') v start end0 = Inr (spec_sum v start end0)"
    and "mf_switch_fun_code fl (mf_code_fun atof ''mean'') v start end0 = Inr (spec_mean v start end0)"
    and "mf_switch_fun_code fl (mf_code_fun atof ''sd'') v start end0 = Inr (spec_sd v start end0)"
    and "mf_switch_fun_code fl (mf_code_fun atof ''max'') v start end0 = Inr (spec_max v start end0)"
    and "mf_switch_fun_code fl (mf_code_fun atof ''min'') v start end0 = Inr (spec_min v start end0)"
  using assms
  by (simp_all add: mf_switch_fun_code_def mf_code_fun_def mf_array_dsum_range_eq
      mf_array_dmean_range_eq mf_array_dsd_range_eq mf_array_dmax_range_eq mf_array_dmin_range_eq)




section \<open>Allocation failure\<close>

text \<open>
  The allocations that the sorts check: the routine returns the code of \<open>sf_oom_error\<close>
  and the caller's arrays are as they were.
\<close>

lemma checked_allocations:
  "(fn, ''xcopy'') \<in> set failing \<Longrightarrow>
     counting_sort_text isint ty fn msg failing x index N mn mx = Inr (RC_OOM msg ''xcopy'', x, index)"
  "(''mf_radix_sort_index_pass'', ''xmod'') \<in> set failing \<Longrightarrow>
   shift \<noteq> 0 \<Longrightarrow> 4 * unat shift \<le> stack \<Longrightarrow>
     mf_radix_sort_index_pass stack failing x index N exp0 shift =
       Inr (RC_OOM ''mf_radix_sort_index_pass'' ''xmod'', x, index)"
  "(''gf_radix_sort16'', ''hcopy'') \<in> set failing \<Longrightarrow>
     gf_radix_sort16 failing x index N = Inr (RC_OOM ''radixSort'' ''hcopy'', x, index)"
  "(''gf_radix_psort16'', ''hcopy'') \<in> set failing \<Longrightarrow>
     gf_radix_psort16 failing x index N = Inr (RC_OOM ''radixSort'' ''hcopy'', x, index)"
  by (simp_all add: counting_sort_text_def mf_radix_sort_index_pass_def gf_radix_sort16_def
      gf_radix_psort16_def calloc_def Let_def)

lemma mf_min_2: "mf_min [a, b] 2 = Inr (if a > b then b else a)"
  by (simp add: mf_min_def for_loop_unroll)

lemma mf_max_2: "mf_max [a, b] 2 = Inr (if a < b then b else a)"
  by (simp add: mf_max_def for_loop_unroll)

text \<open>
  C8 (the code departs from the claim). \<open>gf_radix_sort16\<close> does not check \<open>counts\<close> and its
  four tables, \<open>gf_radix_psort16\<close> does not check \<open>pinfo\<close> and its four tables, and
  \<open>gf_sort_hash\<close> does not check its two copies. When one of these allocations fails, the
  routine stores through the \<open>NULL\<close> pointer instead of returning a non-zero code,
  whatever the keys are.
\<close>

lemma unchecked_copy:
  "gf_sort_hash [(''gf_sort_hash'', ''copy_hash'')] [2 ^ 40, 1] [0, 1] 2 = Inl NullPointer"
  by (simp add: gf_sort_hash_def mf_min_2 mf_max_2 calloc_def for_loop_unroll)

theorem unchecked_allocations:
  "gf_radix_sort16 [(''gf_radix_sort16'', ''counts'')] hash0 index N = Inl NullPointer \<and>
   gf_radix_sort16 [(''gf_radix_sort16'', ''counts->c4'')] hash0 index N = Inl NullPointer \<and>
   gf_radix_psort16 [(''gf_radix_psort16'', ''pinfo'')] hash0 index N = Inl NullPointer \<and>
   gf_radix_psort16 [(''gf_radix_psort16'', ''pcounts4'')] hash0 index N = Inl NullPointer \<and>
   gf_sort_hash [(''gf_sort_hash'', ''copy_hash'')] [2 ^ 40, 1] [0, 1] 2 = Inl NullPointer"
  using unchecked_copy
  by (simp add: gf_radix_sort16_def gf_radix_psort16_def calloc_def gf_radix_counts16_def)

section \<open>The loop that fills the index\<close>

lemma index_identity_loop:
  "n \<le> length index \<Longrightarrow>
   for_loop 0 n (\<lambda>i index. wr index i (of_nat i)) index = Inr (map of_nat [0..<n] @ drop n index)"
proof (induction n)
  case 0
  then show ?case by simp
next
  case (Suc n)
  then have lt: "n < length index" by simp
  have "(map of_nat [0..<n] @ drop n index)[n := of_nat n] = map of_nat [0..<Suc n] @ drop (Suc n) index"
    using lt by (simp add: list_update_append Cons_nth_drop_Suc [symmetric])
  with Suc lt show ?case
    by (simp add: for_loop_Suc del: upt_Suc)
qed

lemma index_identity:
  "length index = N \<Longrightarrow>
   mf_index_fill N index = (if N < 2 ^ 31 then Inr (map of_nat [0..<N]) else Inl Overflow)"
  by (simp add: mf_index_fill_def for_int_def index_identity_loop)

section \<open>Slots are a permutation\<close>

lemma keys_below_Suc: "keys_below ks (Suc b) = keys_below ks b + keys_equal ks b"
  unfolding keys_below_def keys_equal_def
  by (induction ks) auto

lemma keys_below_0 [simp]: "keys_below ks 0 = 0"
  by (simp add: keys_below_def)

lemma keys_below_mono: "a \<le> b \<Longrightarrow> keys_below ks a \<le> keys_below ks b"
  unfolding keys_below_def
  by (induction ks) auto

lemma keys_below_le: "keys_below ks b \<le> length ks"
  by (simp add: keys_below_def)

lemma keys_below_all: "\<forall>k \<in> set ks. k < b \<Longrightarrow> keys_below ks b = length ks"
  by (simp add: keys_below_def)

lemma keys_equal_take_Suc:
  "j < length ks \<Longrightarrow>
   keys_equal (take (Suc j) ks) b = keys_equal (take j ks) b + (if ks ! j = b then 1 else 0)"
  by (simp add: keys_equal_def take_Suc_conv_app_nth)

lemma keys_equal_take_mono: "i \<le> j \<Longrightarrow> keys_equal (take i ks) b \<le> keys_equal (take j ks) b"
proof (induction j)
  case 0
  then show ?case by simp
next
  case (Suc j)
  show ?case
  proof (cases "i = Suc j")
    case True
    then show ?thesis by simp
  next
    case False
    with Suc have le: "keys_equal (take i ks) b \<le> keys_equal (take j ks) b" by simp
    show ?thesis
    proof (cases "j < length ks")
      case True
      with le show ?thesis by (simp add: keys_equal_take_Suc)
    next
      case False
      with le show ?thesis by simp
    qed
  qed
qed

lemma keys_equal_take_le: "keys_equal (take j ks) b \<le> keys_equal ks b"
  using keys_equal_take_mono [of j "length ks" ks b] by (cases "j \<le> length ks") simp_all

lemma keys_equal_take_less:
  assumes "j < length ks"
  shows "keys_equal (take j ks) (ks ! j) < keys_equal ks (ks ! j)"
proof -
  have "keys_equal (take (Suc j) ks) (ks ! j) \<le> keys_equal ks (ks ! j)"
    by (rule keys_equal_take_le)
  with assms show ?thesis by (simp add: keys_equal_take_Suc)
qed

lemma slot_less_next:
  "j < length ks \<Longrightarrow> slot ks j < keys_below ks (Suc (ks ! j))"
  by (simp add: slot_def keys_below_Suc keys_equal_take_less)

lemma slot_less: "j < length ks \<Longrightarrow> slot ks j < length ks"
  using slot_less_next [of j ks] keys_below_le [of ks "Suc (ks ! j)"] by simp

lemma slot_inj:
  assumes "i < length ks" "j < length ks" "slot ks i = slot ks j"
  shows "i = j"
proof -
  have same_key: "ks ! i = ks ! j"
  proof (rule ccontr)
    assume ne: "ks ! i \<noteq> ks ! j"
    have lt: "slot ks a < slot ks b" if "a < length ks" "b < length ks" "ks ! a < ks ! b" for a b
    proof -
      have "slot ks a < keys_below ks (Suc (ks ! a))"
        using that by (simp add: slot_less_next)
      also have "\<dots> \<le> keys_below ks (ks ! b)"
        using that by (intro keys_below_mono) simp
      also have "\<dots> \<le> slot ks b"
        by (simp add: slot_def)
      finally show ?thesis .
    qed
    from ne consider "ks ! i < ks ! j" | "ks ! j < ks ! i" by linarith
    then show False
      using lt [of i j] lt [of j i] assms by cases simp_all
  qed
  have eq: "keys_equal (take i ks) (ks ! i) = keys_equal (take j ks) (ks ! i)"
    using assms(3) same_key by (simp add: slot_def)
  have strict: "keys_equal (take a ks) (ks ! a) < keys_equal (take b ks) (ks ! a)"
    if "a < b" "a < length ks" for a b
  proof -
    have "keys_equal (take (Suc a) ks) (ks ! a) \<le> keys_equal (take b ks) (ks ! a)"
      using that by (intro keys_equal_take_mono) simp
    with that show ?thesis by (simp add: keys_equal_take_Suc)
  qed
  show ?thesis
  proof (rule ccontr)
    assume "i \<noteq> j"
    then consider "i < j" | "j < i" by linarith
    then show False
      using strict [of i j] strict [of j i] eq same_key assms by cases simp_all
  qed
qed

lemma slot_surj:
  assumes "p < length ks"
  shows "\<exists>j < length ks. slot ks j = p"
proof -
  let ?A = "{..<length ks}"
  have inj: "inj_on (slot ks) ?A"
    by (auto intro!: inj_onI dest: slot_inj)
  have sub: "slot ks ` ?A \<subseteq> ?A"
    by (auto simp: slot_less)
  have "card (slot ks ` ?A) = card ?A"
    using inj by (rule card_image)
  with sub have "slot ks ` ?A = ?A"
    by (intro card_subset_eq) simp_all
  with assms have "p \<in> slot ks ` ?A" by simp
  then show ?thesis by auto
qed

section \<open>A stable sort puts every row in its slot\<close>

lemma filter_nth_take:
  "j < length zs \<Longrightarrow> P (zs ! j) \<Longrightarrow> filter P zs ! length (filter P (take j zs)) = zs ! j"
proof -
  assume j: "j < length zs" and P: "P (zs ! j)"
  have "zs = take j zs @ zs ! j # drop (Suc j) zs"
    using j by (simp add: id_take_nth_drop [symmetric])
  then have "filter P zs = filter P (take j zs) @ zs ! j # filter P (drop (Suc j) zs)"
    using P by (metis filter.simps(2) filter_append)
  then show ?thesis
    by (simp add: nth_append)
qed

lemma sorted_split:
  "sorted (map k ys) \<Longrightarrow> ys = filter (\<lambda>y. k y < b) ys @ filter (\<lambda>y. \<not> k y < b) ys"
proof (induction ys)
  case Nil
  then show ?case by simp
next
  case (Cons y ys)
  show ?case
  proof (cases "k y < b")
    case True
    with Cons show ?thesis by simp
  next
    case False
    with Cons.prems have "\<forall>z \<in> set ys. \<not> k z < b"
      by (auto simp: not_less intro: order_trans)
    then have "filter (\<lambda>y. k y < b) ys = []" "filter (\<lambda>y. \<not> k y < b) ys = ys"
      by (simp_all add: filter_empty_conv filter_id_conv)
    with False show ?thesis by simp
  qed
qed

lemma sorted_nth_bucket:
  fixes k :: "'a \<Rightarrow> nat"
  assumes "sorted (map k ys)" "m < length (filter (\<lambda>y. k y = b) ys)"
  shows "ys ! (length (filter (\<lambda>y. k y < b) ys) + m) = filter (\<lambda>y. k y = b) ys ! m"
proof -
  define lo where "lo = filter (\<lambda>y. k y < b) ys"
  define hi where "hi = filter (\<lambda>y. \<not> k y < b) ys"
  define eq where "eq = filter (\<lambda>y. k y = b) ys"
  have s1: "ys = lo @ hi"
    unfolding lo_def hi_def using assms(1) by (rule sorted_split)
  have "sorted (map k hi)"
    unfolding hi_def using assms(1) by (simp add: sorted_filter)
  then have s2: "hi = filter (\<lambda>y. k y < Suc b) hi @ filter (\<lambda>y. \<not> k y < Suc b) hi"
    by (rule sorted_split)
  have "filter (\<lambda>y. k y < Suc b) hi = eq"
    unfolding hi_def eq_def by (auto intro: filter_cong)
  with s2 have s3: "hi = eq @ filter (\<lambda>y. \<not> k y < Suc b) hi"
    by simp
  have "ys ! (length lo + m) = hi ! m"
    by (subst s1) (simp add: nth_append)
  also have "\<dots> = eq ! m"
    using assms(2) by (subst s3) (simp add: nth_append eq_def)
  finally show ?thesis
    by (simp add: lo_def eq_def)
qed

lemma length_filter_map: "length (filter P (map f xs)) = length (filter (\<lambda>x. P (f x)) xs)"
  by (induction xs) simp_all

lemma length_filter_sort_key: "length (filter P (sort_key k zs)) = length (filter P zs)"
proof -
  have "mset (filter P (sort_key k zs)) = mset (filter P zs)"
    by simp
  then show ?thesis
    by (metis size_mset)
qed

lemma sort_key_slot:
  fixes k :: "'a \<Rightarrow> nat"
  assumes "j < length zs"
  shows "sort_key k zs ! slot (map k zs) j = zs ! j"
proof -
  let ?b = "k (zs ! j)"
  let ?ys = "sort_key k zs"
  let ?m = "length (filter (\<lambda>z. k z = ?b) (take j zs))"
  have stable: "filter (\<lambda>y. k y = ?b) ?ys = filter (\<lambda>y. k y = ?b) zs"
    by (rule sort_key_stable)
  have m: "?m < length (filter (\<lambda>y. k y = ?b) zs)"
    using keys_equal_take_less [of j "map k zs"] assms
    by (simp add: keys_equal_def take_map comp_def)
  have "slot (map k zs) j = length (filter (\<lambda>y. k y < ?b) ?ys) + ?m"
    using assms
    by (simp add: slot_def keys_below_def keys_equal_def take_map comp_def
        length_filter_sort_key)
  then have "?ys ! slot (map k zs) j = filter (\<lambda>y. k y = ?b) ?ys ! ?m"
    using sorted_nth_bucket [of k ?ys ?m ?b] m stable by simp
  also have "\<dots> = zs ! j"
    using assms by (simp add: stable filter_nth_take)
  finally show ?thesis .
qed

lemma sort_key_unique:
  fixes k :: "'a \<Rightarrow> nat"
  assumes "length ys = length zs" "\<forall>j < length zs. ys ! slot (map k zs) j = zs ! j"
  shows "ys = sort_key k zs"
proof (rule nth_equalityI)
  show "length ys = length (sort_key k zs)"
    using assms by simp
next
  fix p assume "p < length ys"
  then have "p < length (map k zs)" using assms by simp
  then obtain j where j: "j < length zs" "slot (map k zs) j = p"
    using slot_surj [of p "map k zs"] by auto
  with assms(2) sort_key_slot [of j zs k] show "ys ! p = sort_key k zs ! p"
    by auto
qed

section \<open>Stable sorts digit by digit\<close>

lemma sorted_wrt_refine:
  assumes "sorted_wrt R1 ys" "\<And>k. sorted_wrt R2 (filter (\<lambda>x. g x = k) ys)"
  shows "sorted_wrt (\<lambda>x y. R1 x y \<and> (g x = g y \<longrightarrow> R2 x y)) ys"
  using assms
proof (induction ys)
  case Nil
  then show ?case by simp
next
  case (Cons y ys)
  have tail: "sorted_wrt R2 (filter (\<lambda>x. g x = k) ys)" for k
    using Cons.prems(2) [of k] by (cases "g y = k") simp_all
  have head: "\<forall>z \<in> set ys. g y = g z \<longrightarrow> R2 y z"
    using Cons.prems(2) [of "g y"] by auto
  from Cons.prems(1) Cons.IH tail head show ?case
    by simp
qed

lemma sort_key_lex:
  fixes f g h :: "'a \<Rightarrow> nat"
  assumes lex: "\<And>x y. h x \<le> h y \<longleftrightarrow> g x < g y \<or> (g x = g y \<and> f x \<le> f y)"
  shows "sort_key g (sort_key f xs) = sort_key h xs"
proof (rule sym, rule properties_for_sort_key)
  let ?zs = "sort_key f xs"
  let ?ys = "sort_key g ?zs"
  show "mset ?ys = mset xs" by simp
  have heq: "h a = h b \<longleftrightarrow> g a = g b \<and> f a = f b" for a b
  proof -
    have "h a = h b \<longleftrightarrow> h a \<le> h b \<and> h b \<le> h a"
      by linarith
    also have "\<dots> \<longleftrightarrow> (g a < g b \<or> (g a = g b \<and> f a \<le> f b)) \<and>
                         (g b < g a \<or> (g b = g a \<and> f b \<le> f a))"
      by (simp only: lex)
    also have "\<dots> \<longleftrightarrow> g a = g b \<and> f a = f b"
      by linarith
    finally show ?thesis .
  qed
  show "filter (\<lambda>x. h k = h x) ?ys = filter (\<lambda>x. h k = h x) xs" for k
  proof -
    have "filter (\<lambda>x. h k = h x) ?ys = filter (\<lambda>x. f x = f k) (filter (\<lambda>x. g x = g k) ?ys)"
      by (auto simp: heq intro: filter_cong)
    also have "\<dots> = filter (\<lambda>x. f x = f k) (filter (\<lambda>x. g x = g k) ?zs)"
      by (simp only: sort_key_stable)
    also have "\<dots> = filter (\<lambda>x. g x = g k) (filter (\<lambda>x. f x = f k) ?zs)"
      by (auto intro: filter_cong)
    also have "\<dots> = filter (\<lambda>x. g x = g k) (filter (\<lambda>x. f x = f k) xs)"
      by (simp only: sort_key_stable)
    also have "\<dots> = filter (\<lambda>x. h k = h x) xs"
      by (auto simp: heq intro: filter_cong)
    finally show ?thesis .
  qed
  have s1: "sorted_wrt (\<lambda>x y. g x \<le> g y) ?ys"
    using sorted_sort_key [of g ?zs] by (simp add: sorted_map)
  have s2: "sorted_wrt (\<lambda>x y. f x \<le> f y) (filter (\<lambda>x. g x = k) ?ys)" for k
  proof -
    have "sorted (map f (filter (\<lambda>x. g x = k) ?zs))"
      by (rule sorted_filter) (rule sorted_sort_key)
    then show ?thesis
      by (simp add: sort_key_stable sorted_map)
  qed
  have "sorted_wrt (\<lambda>x y. g x \<le> g y \<and> (g x = g y \<longrightarrow> f x \<le> f y)) ?ys"
    using s1 s2 by (rule sorted_wrt_refine)
  then have "sorted_wrt (\<lambda>x y. h x \<le> h y) ?ys"
    by (rule sorted_wrt_mono_rel [rotated]) (auto simp: lex)
  then show "sorted (map h ?ys)"
    by (simp add: sorted_map)
qed

lemma sort_key_const: "sort_key (\<lambda>z. c :: nat) zs = zs"
  by (induction zs) (simp_all add: insort_is_Cons)

lemma lex_le:
  fixes M :: nat
  assumes "la < M" "lb < M"
  shows "da * M + la \<le> db * M + lb \<longleftrightarrow> da < db \<or> (da = db \<and> la \<le> lb)"
proof (cases da db rule: linorder_cases)
  case less
  then have "Suc da \<le> db" by simp
  then have "Suc da * M \<le> db * M" by (rule mult_le_mono1)
  with assms less show ?thesis by simp
next
  case equal
  then show ?thesis by simp
next
  case greater
  then have "Suc db \<le> da" by simp
  then have "Suc db * M \<le> da * M" by (rule mult_le_mono1)
  with assms greater show ?thesis by simp
qed

lemma mod_mult_digit:
  fixes x :: nat
  shows "x mod (M * B) = (x div M mod B) * M + x mod M"
  by (simp add: mod_mult2_eq)

lemma lsd_step:
  fixes key :: "'a \<Rightarrow> nat"
  assumes "0 < M"
  shows "sort_key (\<lambda>z. key z div M mod B) (sort_key (\<lambda>z. key z mod M) zs) =
         sort_key (\<lambda>z. key z mod (M * B)) zs"
proof (rule sort_key_lex)
  fix x y
  show "key x mod (M * B) \<le> key y mod (M * B) \<longleftrightarrow>
        key x div M mod B < key y div M mod B \<or>
        (key x div M mod B = key y div M mod B \<and> key x mod M \<le> key y mod M)"
    unfolding mod_mult_digit using assms by (intro lex_le) simp_all
qed

lemma lsd_first:
  fixes key :: "'a \<Rightarrow> nat"
  shows "sort_key (\<lambda>z. key z div 1 mod B) zs = sort_key (\<lambda>z. key z mod B) zs"
  by simp

section \<open>One redistribution loop is a stable sort on its digit\<close>

lemma scatter_0 [simp]: "scatter ks zs dst 0 = dst"
  by (simp add: scatter_def)

lemma scatter_Suc: "scatter ks zs dst (Suc n) = (scatter ks zs dst n)[slot ks n := zs ! n]"
  by (simp add: scatter_def)

lemma length_scatter [simp]: "length (scatter ks zs dst n) = length dst"
  by (induction n) (simp_all add: scatter_Suc)

lemma scatter_nth:
  "n \<le> length ks \<Longrightarrow> length dst = length ks \<Longrightarrow> j < n \<Longrightarrow>
   scatter ks zs dst n ! slot ks j = zs ! j"
proof (induction n)
  case 0
  then show ?case by simp
next
  case (Suc n)
  show ?case
  proof (cases "j = n")
    case True
    with Suc.prems show ?thesis
      by (simp add: scatter_Suc slot_less)
  next
    case False
    with Suc.prems have "j < n" by simp
    moreover have "slot ks j \<noteq> slot ks n"
      using slot_inj [of j ks n] Suc.prems False by auto
    ultimately show ?thesis
      using Suc by (simp add: scatter_Suc)
  qed
qed

lemma scatter_sort_key:
  fixes k :: "'a \<Rightarrow> nat"
  assumes "length dst = length zs"
  shows "scatter (map k zs) zs dst (length zs) = sort_key k zs"
  using assms by (intro sort_key_unique) (simp_all add: scatter_nth)

lemma scatter_zip:
  "length d1 = length d2 \<Longrightarrow>
   zip (scatter ks hs d1 n) (scatter ks is d2 n) =
   scatter ks (zip hs is) (zip d1 d2) n" if "n \<le> length hs" "n \<le> length is"
  using that
proof (induction n)
  case 0
  then show ?case by simp
next
  case (Suc n)
  then show ?case
    by (simp add: scatter_Suc zip_update)
qed

lemma length_counted [simp]: "length (counted ks S n) = S"
  by (simp add: counted_def)

lemma length_offsets_after [simp]: "length (offsets_after ks S n) = S"
  by (simp add: offsets_after_def)

lemma counted_nth [simp]: "b < S \<Longrightarrow> counted ks S n ! b = of_nat (keys_equal (take n ks) b)"
  by (simp add: counted_def)

lemma offsets_after_nth [simp]:
  "b < S \<Longrightarrow> offsets_after ks S n ! b = of_nat (keys_below ks b + keys_equal (take n ks) b)"
  by (simp add: offsets_after_def)

lemma counted_0: "counted ks S 0 = replicate S 0"
  by (rule nth_equalityI) (simp_all add: keys_equal_def)

lemma counted_step:
  "n < length ks \<Longrightarrow> ks ! n < S \<Longrightarrow>
   (counted ks S n)[ks ! n := counted ks S n ! (ks ! n) + 1] = counted ks S (Suc n)"
  by (rule nth_equalityI) (auto simp: nth_list_update keys_equal_take_Suc)

lemma offsets_after_step:
  "n < length ks \<Longrightarrow> ks ! n < S \<Longrightarrow>
   (offsets_after ks S n)[ks ! n := offsets_after ks S n ! (ks ! n) + 1] = offsets_after ks S (Suc n)"
  by (rule nth_equalityI) (auto simp: nth_list_update keys_equal_take_Suc)

lemma incr_counted:
  "n < length ks \<Longrightarrow> ks ! n < S \<Longrightarrow> unat byte = ks ! n \<Longrightarrow>
   incr (counted ks S n) byte = Inr (counted ks S (Suc n))"
  using counted_step [of n ks S] by (simp add: incr_def)

lemma incr_offsets_after:
  "n < length ks \<Longrightarrow> ks ! n < S \<Longrightarrow> unat byte = ks ! n \<Longrightarrow>
   incr (offsets_after ks S n) byte = Inr (offsets_after ks S (Suc n))"
  using offsets_after_step [of n ks S] by (simp add: incr_def)

lemma offsets_after_slot:
  "n < length ks \<Longrightarrow> ks ! n < S \<Longrightarrow> offsets_after ks S n ! (ks ! n) = of_nat (slot ks n)"
  by (simp add: slot_def)

lemma unat_of_nat_u32: "p < 2 ^ 32 \<Longrightarrow> unat (of_nat p :: u32) = p"
  by (simp add: unat_of_nat)

lemma radix_loop_run:
  fixes src isrc dst idst :: "u64 list" and bits :: nat and msk :: u64
  defines "ks \<equiv> map (\<lambda>h. unat (digit bits msk h)) src"
  assumes len: "length isrc = length src" "length dst = length src" "length idst = length src"
      and small: "length src \<le> 2 ^ 32"
      and digits: "\<forall>h \<in> set src. unat (digit bits msk h) < S"
      and n: "n \<le> length src"
  shows "radix_loop bits msk n src isrc (offsets_after ks S 0, dst, idst) =
          Inr (offsets_after ks S n, scatter ks src dst n, scatter ks isrc idst n)"
  using n
proof (induction n)
  case 0
  then show ?case by (simp add: radix_loop_def)
next
  case (Suc n)
  then have n: "n < length src" by simp
  then have kn: "ks ! n = unat (digit bits msk (src ! n))" "n < length ks"
    by (simp_all add: ks_def)
  have kS: "ks ! n < S"
    using digits n kn by simp
  have sl: "slot ks n < length src"
    using slot_less [of n ks] kn by (simp add: ks_def)
  then have u: "unat (of_nat (slot ks n) :: u32) = slot ks n"
    using small by (intro unat_of_nat_u32) simp
  have off: "offsets_after ks S n ! unat (digit bits msk (src ! n)) = (of_nat (slot ks n) :: u32)"
    using offsets_after_slot [of n ks S] kn kS by simp
  have inc: "incr (offsets_after ks S n) (digit bits msk (src ! n)) = Inr (offsets_after ks S (Suc n))"
    using kn kS by (intro incr_offsets_after) simp_all
  have kS': "unat (digit bits msk (src ! n)) < S"
    using kS kn by simp
  have "radix_loop bits msk (Suc n) src isrc (offsets_after ks S 0, dst, idst) =
        then_do (radix_loop bits msk n src isrc (offsets_after ks S 0, dst, idst))
          (\<lambda>(counts, dst, idst).
             then_do (rd src n) (\<lambda>h.
             then_do (rd counts (unat (digit bits msk h))) (\<lambda>c.
             then_do (wr dst (unat c) h) (\<lambda>dst.
             then_do (rd isrc n) (\<lambda>ix.
             then_do (wr idst (unat c) ix) (\<lambda>idst.
             then_do (incr counts (digit bits msk h)) (\<lambda>counts.
             Inr (counts, dst, idst))))))))"
    by (simp add: radix_loop_def for_loop_Suc)
  also have "\<dots> = Inr (offsets_after ks S (Suc n), scatter ks src dst (Suc n),
                        scatter ks isrc idst (Suc n))"
    using Suc n kS' sl len by (simp add: off u inc scatter_Suc)
  finally show ?case .
qed

lemma unat_digit16: "unat (digit bits 0xffff h) = unat h div 2 ^ bits mod 65536"
proof -
  have m: "(0xffff :: u64) = mask 16"
    by (simp add: mask_eq_exp_minus_1)
  have "unat (digit bits 0xffff h) = take_bit 32 (take_bit 16 (drop_bit bits (unat h)))"
    unfolding digit_def m
    by (simp add: unsigned_ucast_eq unsigned_take_bit_eq unat_drop_bit_eq flip: take_bit_eq_mask)
  then show ?thesis
    by (simp add: take_bit_eq_mod drop_bit_eq_div)
qed

lemma unat_digit8: "unat (digit bits 0xff h) = unat h div 2 ^ bits mod 256"
proof -
  have m: "(0xff :: u64) = mask 8"
    by (simp add: mask_eq_exp_minus_1)
  have "unat (digit bits 0xff h) = take_bit 32 (take_bit 8 (drop_bit bits (unat h)))"
    unfolding digit_def m
    by (simp add: unsigned_ucast_eq unsigned_take_bit_eq unat_drop_bit_eq flip: take_bit_eq_mask)
  then show ?thesis
    by (simp add: take_bit_eq_mod drop_bit_eq_div)
qed

lemma keys_below_mset: "mset ks = mset ks' \<Longrightarrow> keys_below ks b = keys_below ks' b"
proof -
  assume "mset ks = mset ks'"
  then have "mset (filter (\<lambda>k. k < b) ks) = mset (filter (\<lambda>k. k < b) ks')"
    by simp
  then show ?thesis
    unfolding keys_below_def by (metis size_mset)
qed

lemma offsets_after_0_mset:
  "mset ks = mset ks' \<Longrightarrow> (offsets_after ks S 0 :: 'w::len word list) = offsets_after ks' S 0"
  by (simp add: offsets_after_def keys_below_mset [of ks ks'])

lemma radix_pass:
  fixes src isrc dst idst hs0 :: "u64 list" and bits :: nat and msk :: u64
  defines "Z \<equiv> sort_key (\<lambda>z. unat (digit bits msk (fst z))) (zip src isrc)"
  assumes len: "length isrc = length src" "length dst = length src" "length idst = length src"
      and small: "length src \<le> 2 ^ 32"
      and digits: "\<forall>h. unat (digit bits msk h) < S"
      and tab: "tab = offsets_after (map (\<lambda>h. unat (digit bits msk h)) hs0) S 0"
      and perm: "mset hs0 = mset src"
  shows "radix_loop bits msk (length src) src isrc (tab, dst, idst) =
          Inr (offsets_after (map (\<lambda>h. unat (digit bits msk h)) src) S (length src),
               map fst Z, map snd Z)"
proof -
  let ?d = "\<lambda>h. unat (digit bits msk h)"
  let ?ks = "map ?d src"
  have t: "tab = offsets_after ?ks S 0"
    unfolding tab using perm by (intro offsets_after_0_mset) simp
  have run: "radix_loop bits msk (length src) src isrc (tab, dst, idst) =
          Inr (offsets_after ?ks S (length src), scatter ?ks src dst (length src),
               scatter ?ks isrc idst (length src))"
    unfolding t using len small digits by (intro radix_loop_run) simp_all
  have ks: "?ks = map (\<lambda>z. ?d (fst z)) (zip src isrc)"
    using len by (intro nth_equalityI) simp_all
  have "zip (scatter ?ks src dst (length src)) (scatter ?ks isrc idst (length src)) =
        scatter ?ks (zip src isrc) (zip dst idst) (length src)"
    using len by (intro scatter_zip) simp_all
  also have "\<dots> = Z"
    unfolding Z_def ks using len scatter_sort_key [of "zip dst idst" "zip src isrc"]
    by simp
  finally have z: "zip (scatter ?ks src dst (length src)) (scatter ?ks isrc idst (length src)) = Z" .
  have "map fst Z = scatter ?ks src dst (length src)" "map snd Z = scatter ?ks isrc idst (length src)"
    unfolding z [symmetric] using len by (simp_all add: map_fst_zip map_snd_zip)
  with run show ?thesis by simp
qed

section \<open>The 16-bit radix sort\<close>

lemma length_prefixed [simp]: "length (prefixed ks S i) = S"
  by (simp add: prefixed_def)

lemma prefixed_0: "prefixed ks S 0 = counted ks S (length ks)"
  by (simp add: prefixed_def counted_def)

lemma prefixed_all: "prefixed ks S S = offsets_after ks S 0"
  by (rule nth_equalityI) (simp_all add: prefixed_def offsets_after_def keys_equal_def)

lemma prefixed_nth: "i < S \<Longrightarrow> prefixed ks S i ! i = of_nat (keys_equal ks i)"
  by (simp add: prefixed_def)

lemma prefixed_step:
  "i < S \<Longrightarrow> (prefixed ks S i)[i := of_nat (keys_below ks i)] = prefixed ks S (Suc i)"
  by (rule nth_equalityI) (auto simp: prefixed_def nth_list_update)

lemma replicate_update_same: "n < S \<Longrightarrow> (replicate S x)[n := x] = replicate S x"
proof -
  assume "n < S"
  then have "(replicate S x)[n := x] = (replicate S x)[n := replicate S x ! n]"
    by simp
  then show ?thesis
    by (simp only: list_update_id)
qed

lemma radix16_zero_run:
  "n \<le> S \<Longrightarrow>
   radix16_zero n \<lparr>c4 = replicate S 0, c3 = replicate S 0, c2 = replicate S 0, c1 = replicate S 0\<rparr> =
     Inr \<lparr>c4 = replicate S 0, c3 = replicate S 0, c2 = replicate S 0, c1 = replicate S 0\<rparr>"
proof (induction n)
  case 0
  then show ?case by (simp add: radix16_zero_def)
next
  case (Suc n)
  then show ?case
    by (simp add: radix16_zero_def for_loop_Suc replicate_update_same)
qed

lemma radix16_counts_run:
  fixes hash0 :: "u64 list"
  defines "K \<equiv> \<lambda>bits. map (\<lambda>h. unat (digit bits 0xffff h)) hash0"
  assumes "n \<le> length hash0"
  shows "radix16_counts hash0 n
           \<lparr>c4 = counted (K 0) 65536 0, c3 = counted (K 16) 65536 0,
            c2 = counted (K 32) 65536 0, c1 = counted (K 48) 65536 0\<rparr> =
         Inr \<lparr>c4 = counted (K 0) 65536 n, c3 = counted (K 16) 65536 n,
              c2 = counted (K 32) 65536 n, c1 = counted (K 48) 65536 n\<rparr>"
  using assms(2)
proof (induction n)
  case 0
  then show ?case by (simp add: radix16_counts_def)
next
  case (Suc n)
  then have n: "n < length hash0" by simp
  have inc: "incr (counted (K bits) 65536 n) (digit bits 0xffff (hash0 ! n)) =
             Inr (counted (K bits) 65536 (Suc n))" for bits
    using n by (intro incr_counted) (simp_all add: K_def unat_digit16)
  from Suc n show ?case
    by (simp add: radix16_counts_def for_loop_Suc inc)
qed

lemma radix16_offsets_run:
  fixes k4 k3 k2 k1 :: "nat list"
  assumes "i \<le> S"
  shows "radix16_offsets i
           (\<lparr>c4 = prefixed k4 S 0, c3 = prefixed k3 S 0, c2 = prefixed k2 S 0, c1 = prefixed k1 S 0\<rparr>,
            0, 0, 0, 0) =
         Inr (\<lparr>c4 = prefixed k4 S i, c3 = prefixed k3 S i, c2 = prefixed k2 S i, c1 = prefixed k1 S i\<rparr>,
              of_nat (keys_below k4 i), of_nat (keys_below k3 i),
              of_nat (keys_below k2 i), of_nat (keys_below k1 i))"
  using assms
proof (induction i)
  case 0
  then show ?case by (simp add: radix16_offsets_def)
next
  case (Suc i)
  then show ?case
    by (simp add: radix16_offsets_def for_loop_Suc prefixed_nth prefixed_step keys_below_Suc)
qed

lemma radix_pass_N:
  fixes src isrc dst idst hs0 :: "u64 list" and bits :: nat and msk :: u64
  assumes "length src = N" "length isrc = N" "length dst = N" "length idst = N" "N \<le> 2 ^ 32"
      and "\<forall>h. unat (digit bits msk h) < S"
      and "tab = offsets_after (map (\<lambda>h. unat (digit bits msk h)) hs0) S 0"
      and "mset hs0 = mset src"
  shows "radix_loop bits msk N src isrc (tab, dst, idst) =
          Inr (offsets_after (map (\<lambda>h. unat (digit bits msk h)) src) S N,
               map fst (sort_key (\<lambda>z. unat (digit bits msk (fst z))) (zip src isrc)),
               map snd (sort_key (\<lambda>z. unat (digit bits msk (fst z))) (zip src isrc)))"
  using radix_pass [of isrc src dst idst bits msk S tab hs0] assms by simp

lemma lsd16:
  fixes zs :: "(u64 \<times> 'a) list"
  shows "sort_key (\<lambda>z. unat (digit 48 0xffff (fst z)))
          (sort_key (\<lambda>z. unat (digit 32 0xffff (fst z)))
            (sort_key (\<lambda>z. unat (digit 16 0xffff (fst z)))
              (sort_key (\<lambda>z. unat (digit 0 0xffff (fst z))) zs))) =
         sort_key (\<lambda>z. unat (fst z)) zs"
proof -
  let ?key = "\<lambda>z :: u64 \<times> 'a. unat (fst z)"
  have s1: "sort_key (\<lambda>z. ?key z div 65536 mod 65536) (sort_key (\<lambda>z. ?key z mod 65536) zs) =
            sort_key (\<lambda>z. ?key z mod (65536 * 65536)) zs"
    by (rule lsd_step) simp
  have s2: "sort_key (\<lambda>z. ?key z div (65536 * 65536) mod 65536)
              (sort_key (\<lambda>z. ?key z mod (65536 * 65536)) zs) =
            sort_key (\<lambda>z. ?key z mod (65536 * 65536 * 65536)) zs"
    by (rule lsd_step) simp
  have s3: "sort_key (\<lambda>z. ?key z div (65536 * 65536 * 65536) mod 65536)
              (sort_key (\<lambda>z. ?key z mod (65536 * 65536 * 65536)) zs) =
            sort_key (\<lambda>z. ?key z mod (65536 * 65536 * 65536 * 65536)) zs"
    by (rule lsd_step) simp
  have "unat w < 18446744073709551616" for w :: u64
    using unsigned_less [of w, where 'a = nat] by simp
  then have full: "unat w mod 18446744073709551616 = unat w" for w :: u64
    by simp
  show ?thesis
    using s1 s2 s3 by (simp add: unat_digit16 full)
qed

lemma calloc_succeeds:
  "(fn, var) \<notin> set failing \<Longrightarrow> calloc failing fn var n = Some (replicate n 0)"
  by (simp add: calloc_def)

lemma digit16_bound: "\<forall>h. unat (digit bits 0xffff h) < 65536"
  by (simp add: unat_digit16)

lemma mset_map_fst_sort_key:
  "length is = length hs \<Longrightarrow> mset (map fst (sort_key k (zip hs is))) = mset hs"
proof -
  assume "length is = length hs"
  then have "map fst (zip hs is) = hs" by simp
  then show ?thesis
    by (metis mset_map mset_sort)
qed

lemma gf_radix_sort16_sorts:
  fixes hash0 index :: "u64 list"
  assumes len: "length index = length hash0"
      and small: "length hash0 \<le> 2 ^ 32"
      and alloc: "\<forall>var. (''gf_radix_sort16'', var) \<notin> set failing"
  shows "gf_radix_sort16 failing hash0 index (length hash0) =
          Inr (RC_OK, map fst (sort_key (\<lambda>z. unat (fst z)) (zip hash0 index)),
                      map snd (sort_key (\<lambda>z. unat (fst z)) (zip hash0 index)))"
proof -
  define N where "N = length hash0"
  define K where "K = (\<lambda>bits. map (\<lambda>h. unat (digit bits 0xffff h)) hash0)"
  define d where "d = (\<lambda>bits (z :: u64 \<times> u64). unat (digit bits 0xffff (fst z)))"
  define Z1 where "Z1 = sort_key (d 0) (zip hash0 index)"
  define Z2 where "Z2 = sort_key (d 16) Z1"
  define Z3 where "Z3 = sort_key (d 32) Z2"
  define Z4 where "Z4 = sort_key (d 48) Z3"
  have lenK: "length (K bits) = N" for bits
    by (simp add: K_def N_def)
  have lenZ: "length Z1 = N" "length Z2 = N" "length Z3 = N" "length Z4 = N"
    using len by (simp_all add: Z1_def Z2_def Z3_def Z4_def N_def)
  have ms1: "mset hash0 = mset (map fst Z1)"
    unfolding Z1_def by (rule mset_map_fst_sort_key [OF len, symmetric])
  have ms2: "mset hash0 = mset (map fst Z2)"
    using ms1 by (simp add: Z2_def)
  have ms3: "mset hash0 = mset (map fst Z3)"
    using ms2 by (simp add: Z3_def)
  have zero: "radix16_zero 65536
      \<lparr>c4 = replicate 65536 0, c3 = replicate 65536 0, c2 = replicate 65536 0, c1 = replicate 65536 0\<rparr> =
      Inr \<lparr>c4 = counted (K 0) 65536 0, c3 = counted (K 16) 65536 0,
           c2 = counted (K 32) 65536 0, c1 = counted (K 48) 65536 0\<rparr>"
    by (simp add: radix16_zero_run counted_0)
  have cnt: "radix16_counts hash0 N
      \<lparr>c4 = counted (K 0) 65536 0, c3 = counted (K 16) 65536 0,
       c2 = counted (K 32) 65536 0, c1 = counted (K 48) 65536 0\<rparr> =
      Inr \<lparr>c4 = prefixed (K 0) 65536 0, c3 = prefixed (K 16) 65536 0,
           c2 = prefixed (K 32) 65536 0, c1 = prefixed (K 48) 65536 0\<rparr>"
    unfolding K_def N_def by (simp add: radix16_counts_run prefixed_0)
  have offs: "radix16_offsets 65536
      (\<lparr>c4 = prefixed (K 0) 65536 0, c3 = prefixed (K 16) 65536 0,
        c2 = prefixed (K 32) 65536 0, c1 = prefixed (K 48) 65536 0\<rparr>, 0, 0, 0, 0) =
      Inr (\<lparr>c4 = offsets_after (K 0) 65536 0, c3 = offsets_after (K 16) 65536 0,
            c2 = offsets_after (K 32) 65536 0, c1 = offsets_after (K 48) 65536 0\<rparr>,
           of_nat (keys_below (K 0) 65536), of_nat (keys_below (K 16) 65536),
           of_nat (keys_below (K 32) 65536), of_nat (keys_below (K 48) 65536))"
    by (simp add: radix16_offsets_run prefixed_all)
  have p1: "radix_loop 0 0xffff N hash0 index
              (offsets_after (K 0) 65536 0, replicate N 0, replicate N 0) =
            Inr (offsets_after (K 0) 65536 N, map fst Z1, map snd Z1)"
    unfolding Z1_def d_def K_def
    using len small by (intro radix_pass_N [where ?hs0.0 = hash0]) (simp_all add: N_def digit16_bound)
  have p2: "radix_loop 16 0xffff N (map fst Z1) (map snd Z1)
              (offsets_after (K 16) 65536 0, hash0, index) =
            Inr (offsets_after (map (\<lambda>h. unat (digit 16 0xffff h)) (map fst Z1)) 65536 N,
                 map fst Z2, map snd Z2)"
  proof -
    have "radix_loop 16 0xffff N (map fst Z1) (map snd Z1)
              (offsets_after (K 16) 65536 0, hash0, index) =
            Inr (offsets_after (map (\<lambda>h. unat (digit 16 0xffff h)) (map fst Z1)) 65536 N,
                 map fst (sort_key (d 16) (zip (map fst Z1) (map snd Z1))),
                 map snd (sort_key (d 16) (zip (map fst Z1) (map snd Z1))))"
      unfolding d_def K_def
    proof (rule radix_pass_N [where ?hs0.0 = hash0])
      show "N \<le> 2 ^ 32" using small by (simp add: N_def)
      show "\<forall>h. unat (digit 16 0xffff h) < 65536" by (rule digit16_bound)
      show "mset hash0 = mset (map fst Z1)" by (rule ms1)
    qed (simp_all add: lenZ len N_def)
    then show ?thesis
      by (simp only: zip_map_fst_snd Z2_def)
  qed
  have p3: "radix_loop 32 0xffff N (map fst Z2) (map snd Z2)
              (offsets_after (K 32) 65536 0, map fst Z1, map snd Z1) =
            Inr (offsets_after (map (\<lambda>h. unat (digit 32 0xffff h)) (map fst Z2)) 65536 N,
                 map fst Z3, map snd Z3)"
  proof -
    have "radix_loop 32 0xffff N (map fst Z2) (map snd Z2)
              (offsets_after (K 32) 65536 0, map fst Z1, map snd Z1) =
            Inr (offsets_after (map (\<lambda>h. unat (digit 32 0xffff h)) (map fst Z2)) 65536 N,
                 map fst (sort_key (d 32) (zip (map fst Z2) (map snd Z2))),
                 map snd (sort_key (d 32) (zip (map fst Z2) (map snd Z2))))"
      unfolding d_def K_def
    proof (rule radix_pass_N [where ?hs0.0 = hash0])
      show "N \<le> 2 ^ 32" using small by (simp add: N_def)
      show "\<forall>h. unat (digit 32 0xffff h) < 65536" by (rule digit16_bound)
      show "mset hash0 = mset (map fst Z2)" by (rule ms2)
    qed (simp_all add: lenZ )
    then show ?thesis
      by (simp only: zip_map_fst_snd Z3_def)
  qed
  have p4: "radix_loop 48 0xffff N (map fst Z3) (map snd Z3)
              (offsets_after (K 48) 65536 0, map fst Z2, map snd Z2) =
            Inr (offsets_after (map (\<lambda>h. unat (digit 48 0xffff h)) (map fst Z3)) 65536 N,
                 map fst Z4, map snd Z4)"
  proof -
    have "radix_loop 48 0xffff N (map fst Z3) (map snd Z3)
              (offsets_after (K 48) 65536 0, map fst Z2, map snd Z2) =
            Inr (offsets_after (map (\<lambda>h. unat (digit 48 0xffff h)) (map fst Z3)) 65536 N,
                 map fst (sort_key (d 48) (zip (map fst Z3) (map snd Z3))),
                 map snd (sort_key (d 48) (zip (map fst Z3) (map snd Z3))))"
      unfolding d_def K_def
    proof (rule radix_pass_N [where ?hs0.0 = hash0])
      show "N \<le> 2 ^ 32" using small by (simp add: N_def)
      show "\<forall>h. unat (digit 48 0xffff h) < 65536" by (rule digit16_bound)
      show "mset hash0 = mset (map fst Z3)" by (rule ms3)
    qed (simp_all add: lenZ )
    then show ?thesis
      by (simp only: zip_map_fst_snd Z4_def)
  qed
  have Z4: "Z4 = sort_key (\<lambda>z. unat (fst z)) (zip hash0 index)"
    unfolding Z4_def Z3_def Z2_def Z1_def d_def by (rule lsd16)
  have "gf_radix_sort16 failing hash0 index N = Inr (RC_OK, map fst Z4, map snd Z4)"
    unfolding gf_radix_sort16_def
    using alloc by (simp add: calloc_succeeds zero cnt offs p1 p2 p3 p4)
  then show ?thesis
    by (simp add: Z4 N_def)
qed

section \<open>The 16-bit radix sort with parallel counts\<close>

lemma zero_loop_run:
  "n \<le> S \<Longrightarrow> for_loop 0 n (\<lambda>i tab. wr tab i 0) (replicate S 0) = Inr (replicate S 0)"
proof (induction n)
  case 0
  then show ?case by simp
next
  case (Suc n)
  then show ?case
    by (simp add: for_loop_Suc replicate_update_same)
qed

lemma count_loop_run:
  fixes hash0 :: "u64 list" and bits :: nat
  defines "ks \<equiv> map (\<lambda>h. unat (digit bits 0xffff h)) hash0"
  assumes "n \<le> length hash0"
  shows "for_loop 0 n (\<lambda>i tab. then_do (rd hash0 i) (\<lambda>h. incr tab (digit bits 0xffff h)))
           (counted ks 65536 0) = Inr (counted ks 65536 n)"
  using assms(2)
proof (induction n)
  case 0
  then show ?case by simp
next
  case (Suc n)
  then have n: "n < length hash0" by simp
  have inc: "incr (counted ks 65536 n) (digit bits 0xffff (hash0 ! n)) =
             Inr (counted ks 65536 (Suc n))"
    using n by (intro incr_counted) (simp_all add: ks_def unat_digit16)
  from Suc n show ?case
    by (simp add: for_loop_Suc inc)
qed

lemma offsets_loop_run:
  fixes ks :: "nat list"
  assumes "i \<le> S"
  shows "for_loop 0 i (\<lambda>i (tab, coffset).
           then_do (rd tab i) (\<lambda>n.
           then_do (wr tab i coffset) (\<lambda>tab.
           Inr (tab, coffset + n)))) (prefixed ks S 0 :: u32 list, 0) =
         Inr (prefixed ks S i, of_nat (keys_below ks i))"
  using assms
proof (induction i)
  case 0
  then show ?case by simp
next
  case (Suc i)
  then show ?case
    by (simp add: for_loop_Suc prefixed_nth prefixed_step keys_below_Suc)
qed

lemma digit_0: "ucast (h AND 0xffff) = digit 0 0xffff (h :: u64)"
  by (simp add: digit_def)

lemma gf_radix_counts16_run:
  fixes hash0 :: "u64 list"
  shows "gf_radix_counts16
           \<lparr>thread = t, counts = Some (replicate 65536 0), hash = hash0, psize = 65536,
            pN = length hash0\<rparr> =
         Inr (offsets_after (map (\<lambda>h. unat (digit (16 * t) 0xffff h)) hash0) 65536 0)"
proof -
  have c: "for_loop 0 (length hash0)
             (\<lambda>i tab. then_do (rd hash0 i) (\<lambda>h. incr tab (digit bits 0xffff h)))
             (replicate 65536 0) =
           Inr (prefixed (map (\<lambda>h. unat (digit bits 0xffff h)) hash0) 65536 0)" for bits
    using count_loop_run [of "length hash0" hash0 bits]
    by (simp add: counted_0 prefixed_0)
  have o: "for_loop 0 65536 (\<lambda>i (tab, coffset).
           then_do (rd tab i) (\<lambda>n.
           then_do (wr tab i coffset) (\<lambda>tab.
           Inr (tab, coffset + n)))) (prefixed ks 65536 0 :: u32 list, 0) =
         Inr (offsets_after ks 65536 0, of_nat (keys_below ks 65536))" for ks
    using offsets_loop_run [of 65536 65536 ks] by (simp add: prefixed_all)
  show ?thesis
  proof (cases "t = 0")
    case True
    then show ?thesis
      by (simp add: gf_radix_counts16_def zero_loop_run digit_0 c o)
  next
    case False
    then show ?thesis
      by (simp add: gf_radix_counts16_def zero_loop_run c o)
  qed
qed

lemma gf_radix_psort16_sorts:
  fixes hash0 index :: "u64 list"
  assumes len: "length index = length hash0"
      and small: "length hash0 \<le> 2 ^ 32"
      and alloc: "\<forall>var. (''gf_radix_psort16'', var) \<notin> set failing"
  shows "gf_radix_psort16 failing hash0 index (length hash0) =
          Inr (RC_OK, map fst (sort_key (\<lambda>z. unat (fst z)) (zip hash0 index)),
                      map snd (sort_key (\<lambda>z. unat (fst z)) (zip hash0 index)))"
proof -
  define N where "N = length hash0"
  define K where "K = (\<lambda>bits. map (\<lambda>h. unat (digit bits 0xffff h)) hash0)"
  define d where "d = (\<lambda>bits (z :: u64 \<times> u64). unat (digit bits 0xffff (fst z)))"
  define Z1 where "Z1 = sort_key (d 0) (zip hash0 index)"
  define Z2 where "Z2 = sort_key (d 16) Z1"
  define Z3 where "Z3 = sort_key (d 32) Z2"
  define Z4 where "Z4 = sort_key (d 48) Z3"
  have lenZ: "length Z1 = N" "length Z2 = N" "length Z3 = N" "length Z4 = N"
    using len by (simp_all add: Z1_def Z2_def Z3_def Z4_def N_def)
  have ms1: "mset hash0 = mset (map fst Z1)"
    unfolding Z1_def by (rule mset_map_fst_sort_key [OF len, symmetric])
  have ms2: "mset hash0 = mset (map fst Z2)"
    using ms1 by (simp add: Z2_def)
  have ms3: "mset hash0 = mset (map fst Z3)"
    using ms2 by (simp add: Z3_def)
  have w: "gf_radix_counts16
           \<lparr>thread = t, counts = Some (replicate 65536 0), hash = hash0, psize = 65536, pN = N\<rparr> =
         Inr (offsets_after (K (16 * t)) 65536 0)" for t
    unfolding N_def K_def by (rule gf_radix_counts16_run)
  have p1: "radix_loop 0 0xffff N hash0 index
              (offsets_after (K 0) 65536 0, replicate N 0, replicate N 0) =
            Inr (offsets_after (K 0) 65536 N, map fst Z1, map snd Z1)"
    unfolding Z1_def d_def K_def
    using len small by (intro radix_pass_N [where ?hs0.0 = hash0]) (simp_all add: N_def digit16_bound)
  have p2: "radix_loop 16 0xffff N (map fst Z1) (map snd Z1)
              (offsets_after (K 16) 65536 0, hash0, index) =
            Inr (offsets_after (map (\<lambda>h. unat (digit 16 0xffff h)) (map fst Z1)) 65536 N,
                 map fst Z2, map snd Z2)"
  proof -
    have "radix_loop 16 0xffff N (map fst Z1) (map snd Z1)
              (offsets_after (K 16) 65536 0, hash0, index) =
            Inr (offsets_after (map (\<lambda>h. unat (digit 16 0xffff h)) (map fst Z1)) 65536 N,
                 map fst (sort_key (d 16) (zip (map fst Z1) (map snd Z1))),
                 map snd (sort_key (d 16) (zip (map fst Z1) (map snd Z1))))"
      unfolding d_def K_def
    proof (rule radix_pass_N [where ?hs0.0 = hash0])
      show "N \<le> 2 ^ 32" using small by (simp add: N_def)
      show "\<forall>h. unat (digit 16 0xffff h) < 65536" by (rule digit16_bound)
      show "mset hash0 = mset (map fst Z1)" by (rule ms1)
    qed (simp_all add: lenZ len N_def)
    then show ?thesis
      by (simp only: zip_map_fst_snd Z2_def)
  qed
  have p3: "radix_loop 32 0xffff N (map fst Z2) (map snd Z2)
              (offsets_after (K 32) 65536 0, map fst Z1, map snd Z1) =
            Inr (offsets_after (map (\<lambda>h. unat (digit 32 0xffff h)) (map fst Z2)) 65536 N,
                 map fst Z3, map snd Z3)"
  proof -
    have "radix_loop 32 0xffff N (map fst Z2) (map snd Z2)
              (offsets_after (K 32) 65536 0, map fst Z1, map snd Z1) =
            Inr (offsets_after (map (\<lambda>h. unat (digit 32 0xffff h)) (map fst Z2)) 65536 N,
                 map fst (sort_key (d 32) (zip (map fst Z2) (map snd Z2))),
                 map snd (sort_key (d 32) (zip (map fst Z2) (map snd Z2))))"
      unfolding d_def K_def
    proof (rule radix_pass_N [where ?hs0.0 = hash0])
      show "N \<le> 2 ^ 32" using small by (simp add: N_def)
      show "\<forall>h. unat (digit 32 0xffff h) < 65536" by (rule digit16_bound)
      show "mset hash0 = mset (map fst Z2)" by (rule ms2)
    qed (simp_all add: lenZ )
    then show ?thesis
      by (simp only: zip_map_fst_snd Z3_def)
  qed
  have p4: "radix_loop 48 0xffff N (map fst Z3) (map snd Z3)
              (offsets_after (K 48) 65536 0, map fst Z2, map snd Z2) =
            Inr (offsets_after (map (\<lambda>h. unat (digit 48 0xffff h)) (map fst Z3)) 65536 N,
                 map fst Z4, map snd Z4)"
  proof -
    have "radix_loop 48 0xffff N (map fst Z3) (map snd Z3)
              (offsets_after (K 48) 65536 0, map fst Z2, map snd Z2) =
            Inr (offsets_after (map (\<lambda>h. unat (digit 48 0xffff h)) (map fst Z3)) 65536 N,
                 map fst (sort_key (d 48) (zip (map fst Z3) (map snd Z3))),
                 map snd (sort_key (d 48) (zip (map fst Z3) (map snd Z3))))"
      unfolding d_def K_def
    proof (rule radix_pass_N [where ?hs0.0 = hash0])
      show "N \<le> 2 ^ 32" using small by (simp add: N_def)
      show "\<forall>h. unat (digit 48 0xffff h) < 65536" by (rule digit16_bound)
      show "mset hash0 = mset (map fst Z3)" by (rule ms3)
    qed (simp_all add: lenZ )
    then show ?thesis
      by (simp only: zip_map_fst_snd Z4_def)
  qed
  have Z4: "Z4 = sort_key (\<lambda>z. unat (fst z)) (zip hash0 index)"
    unfolding Z4_def Z3_def Z2_def Z1_def d_def by (rule lsd16)
  have "gf_radix_psort16 failing hash0 index N = Inr (RC_OK, map fst Z4, map snd Z4)"
    unfolding gf_radix_psort16_def
    using alloc w [of 0] w [of 1] w [of 2] w [of 3]
    by (simp add: calloc_succeeds p1 p2 p3 p4)
  then show ?thesis
    by (simp add: Z4 N_def)
qed

section \<open>The 8-bit radix sort\<close>

lemma unat_digit8_bound: "\<forall>h. unat (digit bits 0xff h) < 256"
  by (simp add: unat_digit8)

lemma radix8_counts_run:
  fixes hash0 :: "u64 list"
  defines "K \<equiv> \<lambda>bits. map (\<lambda>h. unat (digit bits 0xff h)) hash0"
  assumes "n \<le> length hash0"
  shows "radix8_counts hash0 n
           \<lparr>b8 = counted (K 0) 256 0, b7 = counted (K 8) 256 0, b6 = counted (K 16) 256 0, b5 = counted (K 24) 256 0, b4 = counted (K 32) 256 0, b3 = counted (K 40) 256 0, b2 = counted (K 48) 256 0, b1 = counted (K 56) 256 0\<rparr> =
         Inr \<lparr>b8 = counted (K 0) 256 n, b7 = counted (K 8) 256 n, b6 = counted (K 16) 256 n, b5 = counted (K 24) 256 n, b4 = counted (K 32) 256 n, b3 = counted (K 40) 256 n, b2 = counted (K 48) 256 n, b1 = counted (K 56) 256 n\<rparr>"
  using assms(2)
proof (induction n)
  case 0
  then show ?case by (simp add: radix8_counts_def)
next
  case (Suc n)
  then have n: "n < length hash0" by simp
  have inc: "incr (counted (K bits) 256 n) (digit bits 0xff (hash0 ! n)) =
             Inr (counted (K bits) 256 (Suc n))" for bits
    using n by (intro incr_counted) (simp_all add: K_def unat_digit8)
  from Suc n show ?case
    by (simp add: radix8_counts_def for_loop_Suc inc)
qed

lemma radix8_offsets_run:
  fixes k :: "nat \<Rightarrow> nat list"
  assumes "i \<le> S"
  shows "radix8_offsets i
           (\<lparr>b8 = prefixed (k 0) S 0, b7 = prefixed (k 8) S 0, b6 = prefixed (k 16) S 0, b5 = prefixed (k 24) S 0, b4 = prefixed (k 32) S 0, b3 = prefixed (k 40) S 0, b2 = prefixed (k 48) S 0, b1 = prefixed (k 56) S 0\<rparr>, [0, 0, 0, 0, 0, 0, 0, 0]) =
         Inr (\<lparr>b8 = prefixed (k 0) S i, b7 = prefixed (k 8) S i, b6 = prefixed (k 16) S i, b5 = prefixed (k 24) S i, b4 = prefixed (k 32) S i, b3 = prefixed (k 40) S i, b2 = prefixed (k 48) S i, b1 = prefixed (k 56) S i\<rparr>,
              [of_nat (keys_below (k 0) i), of_nat (keys_below (k 8) i), of_nat (keys_below (k 16) i), of_nat (keys_below (k 24) i), of_nat (keys_below (k 32) i), of_nat (keys_below (k 40) i), of_nat (keys_below (k 48) i), of_nat (keys_below (k 56) i)])"
  using assms
proof (induction i)
  case 0
  then show ?case by (simp add: radix8_offsets_def)
next
  case (Suc i)
  then show ?case
    by (simp add: radix8_offsets_def for_loop_Suc prefixed_nth prefixed_step keys_below_Suc)
qed

lemma lsd8:
  fixes zs :: "(u64 \<times> 'a) list"
  shows "sort_key (\<lambda>z. unat (digit 56 0xff (fst z)))
     (sort_key (\<lambda>z. unat (digit 48 0xff (fst z)))
     (sort_key (\<lambda>z. unat (digit 40 0xff (fst z)))
     (sort_key (\<lambda>z. unat (digit 32 0xff (fst z)))
     (sort_key (\<lambda>z. unat (digit 24 0xff (fst z)))
     (sort_key (\<lambda>z. unat (digit 16 0xff (fst z)))
     (sort_key (\<lambda>z. unat (digit 8 0xff (fst z)))
     (sort_key (\<lambda>z. unat (digit 0 0xff (fst z)))
     (zs)))))))) =
   sort_key (\<lambda>z. unat (fst z)) zs"
proof -
  let ?key = "\<lambda>z :: u64 \<times> 'a. unat (fst z)"
  have s1: "sort_key (\<lambda>z. ?key z div 256 mod 256) (sort_key (\<lambda>z. ?key z mod 256) zs) =
            sort_key (\<lambda>z. ?key z mod (256 * 256)) zs"
    by (rule lsd_step) simp
  have s2: "sort_key (\<lambda>z. ?key z div 65536 mod 256) (sort_key (\<lambda>z. ?key z mod 65536) zs) =
            sort_key (\<lambda>z. ?key z mod (65536 * 256)) zs"
    by (rule lsd_step) simp
  have s3: "sort_key (\<lambda>z. ?key z div 16777216 mod 256) (sort_key (\<lambda>z. ?key z mod 16777216) zs) =
            sort_key (\<lambda>z. ?key z mod (16777216 * 256)) zs"
    by (rule lsd_step) simp
  have s4: "sort_key (\<lambda>z. ?key z div 4294967296 mod 256) (sort_key (\<lambda>z. ?key z mod 4294967296) zs) =
            sort_key (\<lambda>z. ?key z mod (4294967296 * 256)) zs"
    by (rule lsd_step) simp
  have s5: "sort_key (\<lambda>z. ?key z div 1099511627776 mod 256) (sort_key (\<lambda>z. ?key z mod 1099511627776) zs) =
            sort_key (\<lambda>z. ?key z mod (1099511627776 * 256)) zs"
    by (rule lsd_step) simp
  have s6: "sort_key (\<lambda>z. ?key z div 281474976710656 mod 256) (sort_key (\<lambda>z. ?key z mod 281474976710656) zs) =
            sort_key (\<lambda>z. ?key z mod (281474976710656 * 256)) zs"
    by (rule lsd_step) simp
  have s7: "sort_key (\<lambda>z. ?key z div 72057594037927936 mod 256) (sort_key (\<lambda>z. ?key z mod 72057594037927936) zs) =
            sort_key (\<lambda>z. ?key z mod (72057594037927936 * 256)) zs"
    by (rule lsd_step) simp
  have "unat w < 18446744073709551616" for w :: u64
    using unsigned_less [of w, where 'a = nat] by simp
  then have full: "unat w mod 18446744073709551616 = unat w" for w :: u64
    by simp
  show ?thesis
    using s1 s2 s3 s4 s5 s6 s7 by (simp add: unat_digit8 full)
qed

lemma gf_radix_sort8_sorts:
  fixes hash0 index :: "u64 list"
  assumes len: "length index = length hash0"
      and small: "length hash0 \<le> 2 ^ 32"
      and alloc: "\<forall>var. (''gf_radix_sort8'', var) \<notin> set failing"
  shows "gf_radix_sort8 failing hash0 index (length hash0) =
          Inr (RC_OK, map fst (sort_key (\<lambda>z. unat (fst z)) (zip hash0 index)),
                      map snd (sort_key (\<lambda>z. unat (fst z)) (zip hash0 index)))"
proof -
  define N where "N = length hash0"
  define K where "K = (\<lambda>bits. map (\<lambda>h. unat (digit bits 0xff h)) hash0)"
  define d where "d = (\<lambda>bits (z :: u64 \<times> u64). unat (digit bits 0xff (fst z)))"
  define Z1 where "Z1 = sort_key (d 0) (zip hash0 index)"
  define Z2 where "Z2 = sort_key (d 8) Z1"
  define Z3 where "Z3 = sort_key (d 16) Z2"
  define Z4 where "Z4 = sort_key (d 24) Z3"
  define Z5 where "Z5 = sort_key (d 32) Z4"
  define Z6 where "Z6 = sort_key (d 40) Z5"
  define Z7 where "Z7 = sort_key (d 48) Z6"
  define Z8 where "Z8 = sort_key (d 56) Z7"
  have lenZ: "length Z1 = N" "length Z2 = N" "length Z3 = N" "length Z4 = N" "length Z5 = N" "length Z6 = N" "length Z7 = N" "length Z8 = N"
    using len by (simp_all add: Z1_def Z2_def Z3_def Z4_def Z5_def Z6_def Z7_def Z8_def N_def)
  have ms1: "mset hash0 = mset (map fst Z1)"
    unfolding Z1_def by (rule mset_map_fst_sort_key [OF len, symmetric])
  have ms2: "mset hash0 = mset (map fst Z2)"
    using ms1 by (simp add: Z2_def)
  have ms3: "mset hash0 = mset (map fst Z3)"
    using ms2 by (simp add: Z3_def)
  have ms4: "mset hash0 = mset (map fst Z4)"
    using ms3 by (simp add: Z4_def)
  have ms5: "mset hash0 = mset (map fst Z5)"
    using ms4 by (simp add: Z5_def)
  have ms6: "mset hash0 = mset (map fst Z6)"
    using ms5 by (simp add: Z6_def)
  have ms7: "mset hash0 = mset (map fst Z7)"
    using ms6 by (simp add: Z7_def)
  have cnt: "radix8_counts hash0 N
      \<lparr>b8 = replicate 256 0, b7 = replicate 256 0, b6 = replicate 256 0, b5 = replicate 256 0, b4 = replicate 256 0, b3 = replicate 256 0, b2 = replicate 256 0, b1 = replicate 256 0\<rparr> =
      Inr \<lparr>b8 = prefixed (K 0) 256 0, b7 = prefixed (K 8) 256 0, b6 = prefixed (K 16) 256 0, b5 = prefixed (K 24) 256 0, b4 = prefixed (K 32) 256 0, b3 = prefixed (K 40) 256 0, b2 = prefixed (K 48) 256 0, b1 = prefixed (K 56) 256 0\<rparr>"
    unfolding K_def N_def
    using radix8_counts_run [of "length hash0" hash0]
    by (simp add: counted_0 prefixed_0)
  have offs: "radix8_offsets 256
      (\<lparr>b8 = prefixed (K 0) 256 0, b7 = prefixed (K 8) 256 0, b6 = prefixed (K 16) 256 0, b5 = prefixed (K 24) 256 0, b4 = prefixed (K 32) 256 0, b3 = prefixed (K 40) 256 0, b2 = prefixed (K 48) 256 0, b1 = prefixed (K 56) 256 0\<rparr>, [0, 0, 0, 0, 0, 0, 0, 0]) =
      Inr (\<lparr>b8 = offsets_after (K 0) 256 0, b7 = offsets_after (K 8) 256 0, b6 = offsets_after (K 16) 256 0, b5 = offsets_after (K 24) 256 0, b4 = offsets_after (K 32) 256 0, b3 = offsets_after (K 40) 256 0, b2 = offsets_after (K 48) 256 0, b1 = offsets_after (K 56) 256 0\<rparr>,
           [of_nat (keys_below (K 0) 256), of_nat (keys_below (K 8) 256), of_nat (keys_below (K 16) 256), of_nat (keys_below (K 24) 256), of_nat (keys_below (K 32) 256), of_nat (keys_below (K 40) 256), of_nat (keys_below (K 48) 256), of_nat (keys_below (K 56) 256)])"
    using radix8_offsets_run [of 256 256 K] by (simp add: prefixed_all)
  have p1: "radix_loop 0 0xff N hash0 index
              (offsets_after (K 0) 256 0, replicate N 0, replicate N 0) =
            Inr (offsets_after (K 0) 256 N, map fst Z1, map snd Z1)"
    unfolding Z1_def d_def K_def
    using len small by (intro radix_pass_N [where ?hs0.0 = hash0]) (simp_all add: N_def unat_digit8_bound)
  have p2: "radix_loop 8 0xff N (map fst Z1) (map snd Z1)
              (offsets_after (K 8) 256 0, hash0, index) =
            Inr (offsets_after (map (\<lambda>h. unat (digit 8 0xff h)) (map fst Z1)) 256 N,
                 map fst Z2, map snd Z2)"
  proof -
    have "radix_loop 8 0xff N (map fst Z1) (map snd Z1)
              (offsets_after (K 8) 256 0, hash0, index) =
            Inr (offsets_after (map (\<lambda>h. unat (digit 8 0xff h)) (map fst Z1)) 256 N,
                 map fst (sort_key (d 8) (zip (map fst Z1) (map snd Z1))),
                 map snd (sort_key (d 8) (zip (map fst Z1) (map snd Z1))))"
      unfolding d_def K_def
    proof (rule radix_pass_N [where ?hs0.0 = hash0])
      show "N \<le> 2 ^ 32" using small by (simp add: N_def)
      show "\<forall>h. unat (digit 8 0xff h) < 256" by (rule unat_digit8_bound)
      show "mset hash0 = mset (map fst Z1)" by (rule ms1)
    qed (simp_all add: lenZ len N_def)
    then show ?thesis
      by (simp only: zip_map_fst_snd Z2_def)
  qed
  have p3: "radix_loop 16 0xff N (map fst Z2) (map snd Z2)
              (offsets_after (K 16) 256 0, map fst Z1, map snd Z1) =
            Inr (offsets_after (map (\<lambda>h. unat (digit 16 0xff h)) (map fst Z2)) 256 N,
                 map fst Z3, map snd Z3)"
  proof -
    have "radix_loop 16 0xff N (map fst Z2) (map snd Z2)
              (offsets_after (K 16) 256 0, map fst Z1, map snd Z1) =
            Inr (offsets_after (map (\<lambda>h. unat (digit 16 0xff h)) (map fst Z2)) 256 N,
                 map fst (sort_key (d 16) (zip (map fst Z2) (map snd Z2))),
                 map snd (sort_key (d 16) (zip (map fst Z2) (map snd Z2))))"
      unfolding d_def K_def
    proof (rule radix_pass_N [where ?hs0.0 = hash0])
      show "N \<le> 2 ^ 32" using small by (simp add: N_def)
      show "\<forall>h. unat (digit 16 0xff h) < 256" by (rule unat_digit8_bound)
      show "mset hash0 = mset (map fst Z2)" by (rule ms2)
    qed (simp_all add: lenZ )
    then show ?thesis
      by (simp only: zip_map_fst_snd Z3_def)
  qed
  have p4: "radix_loop 24 0xff N (map fst Z3) (map snd Z3)
              (offsets_after (K 24) 256 0, map fst Z2, map snd Z2) =
            Inr (offsets_after (map (\<lambda>h. unat (digit 24 0xff h)) (map fst Z3)) 256 N,
                 map fst Z4, map snd Z4)"
  proof -
    have "radix_loop 24 0xff N (map fst Z3) (map snd Z3)
              (offsets_after (K 24) 256 0, map fst Z2, map snd Z2) =
            Inr (offsets_after (map (\<lambda>h. unat (digit 24 0xff h)) (map fst Z3)) 256 N,
                 map fst (sort_key (d 24) (zip (map fst Z3) (map snd Z3))),
                 map snd (sort_key (d 24) (zip (map fst Z3) (map snd Z3))))"
      unfolding d_def K_def
    proof (rule radix_pass_N [where ?hs0.0 = hash0])
      show "N \<le> 2 ^ 32" using small by (simp add: N_def)
      show "\<forall>h. unat (digit 24 0xff h) < 256" by (rule unat_digit8_bound)
      show "mset hash0 = mset (map fst Z3)" by (rule ms3)
    qed (simp_all add: lenZ )
    then show ?thesis
      by (simp only: zip_map_fst_snd Z4_def)
  qed
  have p5: "radix_loop 32 0xff N (map fst Z4) (map snd Z4)
              (offsets_after (K 32) 256 0, map fst Z3, map snd Z3) =
            Inr (offsets_after (map (\<lambda>h. unat (digit 32 0xff h)) (map fst Z4)) 256 N,
                 map fst Z5, map snd Z5)"
  proof -
    have "radix_loop 32 0xff N (map fst Z4) (map snd Z4)
              (offsets_after (K 32) 256 0, map fst Z3, map snd Z3) =
            Inr (offsets_after (map (\<lambda>h. unat (digit 32 0xff h)) (map fst Z4)) 256 N,
                 map fst (sort_key (d 32) (zip (map fst Z4) (map snd Z4))),
                 map snd (sort_key (d 32) (zip (map fst Z4) (map snd Z4))))"
      unfolding d_def K_def
    proof (rule radix_pass_N [where ?hs0.0 = hash0])
      show "N \<le> 2 ^ 32" using small by (simp add: N_def)
      show "\<forall>h. unat (digit 32 0xff h) < 256" by (rule unat_digit8_bound)
      show "mset hash0 = mset (map fst Z4)" by (rule ms4)
    qed (simp_all add: lenZ )
    then show ?thesis
      by (simp only: zip_map_fst_snd Z5_def)
  qed
  have p6: "radix_loop 40 0xff N (map fst Z5) (map snd Z5)
              (offsets_after (K 40) 256 0, map fst Z4, map snd Z4) =
            Inr (offsets_after (map (\<lambda>h. unat (digit 40 0xff h)) (map fst Z5)) 256 N,
                 map fst Z6, map snd Z6)"
  proof -
    have "radix_loop 40 0xff N (map fst Z5) (map snd Z5)
              (offsets_after (K 40) 256 0, map fst Z4, map snd Z4) =
            Inr (offsets_after (map (\<lambda>h. unat (digit 40 0xff h)) (map fst Z5)) 256 N,
                 map fst (sort_key (d 40) (zip (map fst Z5) (map snd Z5))),
                 map snd (sort_key (d 40) (zip (map fst Z5) (map snd Z5))))"
      unfolding d_def K_def
    proof (rule radix_pass_N [where ?hs0.0 = hash0])
      show "N \<le> 2 ^ 32" using small by (simp add: N_def)
      show "\<forall>h. unat (digit 40 0xff h) < 256" by (rule unat_digit8_bound)
      show "mset hash0 = mset (map fst Z5)" by (rule ms5)
    qed (simp_all add: lenZ )
    then show ?thesis
      by (simp only: zip_map_fst_snd Z6_def)
  qed
  have p7: "radix_loop 48 0xff N (map fst Z6) (map snd Z6)
              (offsets_after (K 48) 256 0, map fst Z5, map snd Z5) =
            Inr (offsets_after (map (\<lambda>h. unat (digit 48 0xff h)) (map fst Z6)) 256 N,
                 map fst Z7, map snd Z7)"
  proof -
    have "radix_loop 48 0xff N (map fst Z6) (map snd Z6)
              (offsets_after (K 48) 256 0, map fst Z5, map snd Z5) =
            Inr (offsets_after (map (\<lambda>h. unat (digit 48 0xff h)) (map fst Z6)) 256 N,
                 map fst (sort_key (d 48) (zip (map fst Z6) (map snd Z6))),
                 map snd (sort_key (d 48) (zip (map fst Z6) (map snd Z6))))"
      unfolding d_def K_def
    proof (rule radix_pass_N [where ?hs0.0 = hash0])
      show "N \<le> 2 ^ 32" using small by (simp add: N_def)
      show "\<forall>h. unat (digit 48 0xff h) < 256" by (rule unat_digit8_bound)
      show "mset hash0 = mset (map fst Z6)" by (rule ms6)
    qed (simp_all add: lenZ )
    then show ?thesis
      by (simp only: zip_map_fst_snd Z7_def)
  qed
  have p8: "radix_loop 56 0xff N (map fst Z7) (map snd Z7)
              (offsets_after (K 56) 256 0, map fst Z6, map snd Z6) =
            Inr (offsets_after (map (\<lambda>h. unat (digit 56 0xff h)) (map fst Z7)) 256 N,
                 map fst Z8, map snd Z8)"
  proof -
    have "radix_loop 56 0xff N (map fst Z7) (map snd Z7)
              (offsets_after (K 56) 256 0, map fst Z6, map snd Z6) =
            Inr (offsets_after (map (\<lambda>h. unat (digit 56 0xff h)) (map fst Z7)) 256 N,
                 map fst (sort_key (d 56) (zip (map fst Z7) (map snd Z7))),
                 map snd (sort_key (d 56) (zip (map fst Z7) (map snd Z7))))"
      unfolding d_def K_def
    proof (rule radix_pass_N [where ?hs0.0 = hash0])
      show "N \<le> 2 ^ 32" using small by (simp add: N_def)
      show "\<forall>h. unat (digit 56 0xff h) < 256" by (rule unat_digit8_bound)
      show "mset hash0 = mset (map fst Z7)" by (rule ms7)
    qed (simp_all add: lenZ )
    then show ?thesis
      by (simp only: zip_map_fst_snd Z8_def)
  qed
  have Z8: "Z8 = sort_key (\<lambda>z. unat (fst z)) (zip hash0 index)"
    unfolding Z8_def Z7_def Z6_def Z5_def Z4_def Z3_def Z2_def Z1_def d_def by (rule lsd8)
  have "gf_radix_sort8 failing hash0 index N = Inr (RC_OK, map fst Z8, map snd Z8)"
    unfolding gf_radix_sort8_def
    using alloc by (simp add: calloc_succeeds cnt offs p1 p2 p3 p4 p5 p6 p7 p8)
  then show ?thesis
    by (simp add: Z8 N_def)
qed

section \<open>The counting sort\<close>

lemma sort_key_cong_order:
  fixes f g :: "'a \<Rightarrow> nat"
  assumes "\<And>x y. x \<in> set zs \<Longrightarrow> y \<in> set zs \<Longrightarrow> f x \<le> f y \<longleftrightarrow> g x \<le> g y"
  shows "sort_key f zs = sort_key g zs"
proof (rule properties_for_sort_key)
  let ?ys = "sort_key g zs"
  show "mset ?ys = mset zs" by simp
  have eq: "f a = f b \<longleftrightarrow> g a = g b" if "a \<in> set zs" "b \<in> set zs" for a b
    using assms [OF that] assms [OF that(2) that(1)] by linarith
  show "filter (\<lambda>x. f k = f x) ?ys = filter (\<lambda>x. f k = f x) zs" if "k \<in> set ?ys" for k
  proof -
    from that have k: "k \<in> set zs" by simp
    have "filter (\<lambda>x. f k = f x) ?ys = filter (\<lambda>x. g x = g k) ?ys"
      using k by (intro filter_cong) (auto simp: eq)
    also have "\<dots> = filter (\<lambda>x. g x = g k) zs"
      by (rule sort_key_stable)
    also have "\<dots> = filter (\<lambda>x. f k = f x) zs"
      using k by (intro filter_cong) (auto simp: eq)
    finally show ?thesis .
  qed
  have "sorted_wrt (\<lambda>x y. g x \<le> g y) ?ys"
    using sorted_sort_key [of g zs] by (simp add: sorted_map)
  then have "sorted_wrt (\<lambda>x y. f x \<le> f y) ?ys"
    by (rule sorted_wrt_mono_rel [rotated]) (simp add: assms)
  then show "sorted (map f ?ys)"
    by (simp add: sorted_map)
qed

lemma length_cumulated [simp]: "length (cumulated ks S m) = S"
  by (simp add: cumulated_def)

lemma cumulated_1: "cumulated ks (Suc S) 1 = 0 # counted ks S (length ks)"
  by (rule nth_equalityI) (auto simp: cumulated_def nth_Cons simp del: upt_Suc split: nat.splits)

lemma cumulated_all:
  "cumulated ks (Suc S) S = offsets_after ks S 0 @ [of_nat (keys_equal ks (S - 1))]"
  by (rule nth_equalityI)
     (auto simp: cumulated_def nth_append keys_equal_def less_Suc_eq simp del: upt_Suc)

lemma cumulated_step:
  "0 < m \<Longrightarrow> m < S \<Longrightarrow>
   (cumulated ks S m)[m := cumulated ks S m ! m + cumulated ks S m ! (m - 1)] = cumulated ks S (Suc m)"
proof (rule nth_equalityI)
  show "length ((cumulated ks S m)[m := cumulated ks S m ! m + cumulated ks S m ! (m - 1)]) =
        length (cumulated ks S (Suc m))"
    by simp
next
  fix i
  assume m: "0 < m" "m < S"
    and "i < length ((cumulated ks S m)[m := cumulated ks S m ! m + cumulated ks S m ! (m - 1)])"
  then have i: "i < S" by simp
  from m obtain m' where m': "m = Suc m'"
    by (cases m) simp_all
  show "(cumulated ks S m)[m := cumulated ks S m ! m + cumulated ks S m ! (m - 1)] ! i =
        cumulated ks S (Suc m) ! i"
    using i m by (auto simp: cumulated_def nth_list_update m' keys_below_Suc simp del: upt_Suc)
qed

lemma append_replicate_update:
  "length A = n \<Longrightarrow> n < N \<Longrightarrow>
   (A @ replicate (N - n) z)[n := v] = (A @ [v]) @ replicate (N - Suc n) z"
proof -
  assume A: "length A = n" and n: "n < N"
  then have "replicate (N - n) z = z # replicate (N - Suc n) z"
    by (metis Suc_diff_Suc replicate_Suc)
  with A show ?thesis
    by (simp add: list_update_append)
qed

lemma for_c_small:
  "(isint \<longrightarrow> hi < 2 ^ 31) \<Longrightarrow> for_c isint lo hi body s = for_loop lo hi body s"
  by (simp add: for_c_def)

lemma counting_sort_zero_run:
  "n \<le> S \<Longrightarrow> (isint \<longrightarrow> n < 2 ^ 31) \<Longrightarrow>
   counting_sort_zero isint n (replicate S 0) = Inr (replicate S 0)"
  by (simp add: counting_sort_zero_def for_c_small zero_loop_run)

lemma counting_sort_freq_run:
  fixes x index :: "u64 list" and mn :: u64
  defines "ks \<equiv> map (\<lambda>h. unat (h - mn)) x"
  assumes len: "length index = length x"
      and keys: "\<forall>h \<in> set x. unat (h + 1 - mn) = Suc (unat (h - mn)) \<and> unat (h - mn) < S"
      and n: "n \<le> length x" "isint \<longrightarrow> n < 2 ^ 31"
  shows "counting_sort_freq isint x index n mn
           (0 # counted ks S 0 :: 'w::len word list, replicate (length x) 0, replicate (length x) 0) =
         Inr (0 # counted ks S n,
              map (\<lambda>h. h + 1 - mn) (take n x) @ replicate (length x - n) 0,
              take n index @ replicate (length x - n) 0)"
  using n
proof (induction n)
  case 0
  then show ?case by (simp add: counting_sort_freq_def for_c_small)
next
  case (Suc n)
  then have n: "n < length x" and small: "isint \<longrightarrow> n < 2 ^ 31" "isint \<longrightarrow> Suc n < 2 ^ 31"
    by auto
  let ?h = "x ! n"
  have hx: "?h \<in> set x" using n by simp
  have u: "unat (?h + 1 - mn) = Suc (ks ! n)" and kS: "ks ! n < S"
    using keys hx n by (simp_all add: ks_def)
  have tab: "(0 # counted ks S n :: 'w word list)[Suc (ks ! n) := (0 # counted ks S n) ! Suc (ks ! n) + 1] =
             0 # counted ks S (Suc n)"
    using counted_step [of n ks S] n kS by (simp add: ks_def)
  have tab': "(0 # counted ks S n :: 'w word list)[Suc (ks ! n) := of_nat (keys_equal (take n ks) (ks ! n)) + 1] =
             0 # counted ks S (Suc n)"
    using tab kS by simp
  have xc: "(map (\<lambda>h. h + 1 - mn) (take n x) @ replicate (length x - n) 0)[n := ?h + 1 - mn] =
            map (\<lambda>h. h + 1 - mn) (take (Suc n) x) @ replicate (length x - Suc n) 0"
    using n by (simp add: append_replicate_update take_Suc_conv_app_nth)
  have ic: "(take n index @ replicate (length x - n) 0)[n := index ! n] =
            take (Suc n) index @ replicate (length x - Suc n) 0"
    using n len by (simp add: append_replicate_update take_Suc_conv_app_nth)
  have "counting_sort_freq isint x index (Suc n) mn
           (0 # counted ks S 0 :: 'w word list, replicate (length x) 0, replicate (length x) 0) =
        then_do (counting_sort_freq isint x index n mn
           (0 # counted ks S 0, replicate (length x) 0, replicate (length x) 0))
          (\<lambda>(cnt, xcopy, icopy).
             then_do (rd x n) (\<lambda>h.
             then_do (wr xcopy n (h + 1 - mn)) (\<lambda>xcopy.
             then_do (rd cnt (unat (h + 1 - mn))) (\<lambda>c.
             then_do (wr cnt (unat (h + 1 - mn)) (c + 1)) (\<lambda>cnt.
             then_do (rd index n) (\<lambda>ix.
             then_do (wr icopy n ix) (\<lambda>icopy.
             Inr (cnt, xcopy, icopy))))))))"
    using small by (simp add: counting_sort_freq_def for_c_small for_loop_Suc)
  also have "\<dots> = Inr (0 # counted ks S (Suc n),
              map (\<lambda>h. h + 1 - mn) (take (Suc n) x) @ replicate (length x - Suc n) 0,
              take (Suc n) index @ replicate (length x - Suc n) 0)"
    using Suc.IH n small(1) len kS
    by (simp add: u tab' xc ic del: list_update.simps)
  finally show ?case .
qed

lemma counting_sort_cumul_run:
  fixes ks :: "nat list"
  assumes "m < S" "isint \<longrightarrow> Suc m < 2 ^ 31"
  shows "counting_sort_cumul isint (Suc m) (cumulated ks S 1 :: 'w::len word list) =
         Inr (cumulated ks S (Suc m))"
  using assms
proof (induction m)
  case 0
  then show ?case by (simp add: counting_sort_cumul_def for_c_small)
next
  case (Suc m)
  then have small: "isint \<longrightarrow> Suc m < 2 ^ 31" "isint \<longrightarrow> Suc (Suc m) < 2 ^ 31" and m: "Suc m < S"
    by auto
  have "counting_sort_cumul isint (Suc (Suc m)) (cumulated ks S 1 :: 'w word list) =
        then_do (counting_sort_cumul isint (Suc m) (cumulated ks S 1))
          (\<lambda>cnt. then_do (rd cnt (Suc m)) (\<lambda>c.
                  then_do (rd cnt (Suc m - 1)) (\<lambda>p.
                  wr cnt (Suc m) (c + p))))"
    using small by (simp add: counting_sort_cumul_def for_c_small for_loop_Suc)
  also have "\<dots> = Inr (cumulated ks S (Suc (Suc m)))"
    using Suc.IH m small(1) cumulated_step [of "Suc m" S ks]
    by simp
  finally show ?case .
qed


lemma counting_sort_copy_run:
  fixes x0 index0 :: "u64 list" and mn :: u64 and e :: "'w::len word"
  defines "ks \<equiv> map (\<lambda>h. unat (h - mn)) x0"
  assumes len: "length index0 = length x0"
      and keys: "\<forall>h \<in> set x0. unat (h - mn) < S"
      and sub: "\<forall>p < length x0. subscript isint (of_nat p :: 'w word) = Inr p"
      and n: "n \<le> length x0" "isint \<longrightarrow> n < 2 ^ 31"
  shows "counting_sort_copy isint (map (\<lambda>h. h + 1 - mn) x0) index0 n mn
           (offsets_after ks S 0 @ [e], x0, index0) =
         Inr (offsets_after ks S n @ [e], scatter ks x0 x0 n, scatter ks index0 index0 n)"
  using n
proof (induction n)
  case 0
  then show ?case by (simp add: counting_sort_copy_def for_c_small)
next
  case (Suc n)
  then have n: "n < length x0" and small: "isint \<longrightarrow> n < 2 ^ 31" "isint \<longrightarrow> Suc n < 2 ^ 31"
    by auto
  let ?h = "x0 ! n"
  let ?T = "offsets_after ks S n @ [e]"
  have lk: "length ks = length x0" by (simp add: ks_def)
  have hx: "?h \<in> set x0" using n by simp
  have kn: "unat (?h - mn) = ks ! n" using n by (simp add: ks_def)
  have kS: "ks ! n < S" using keys hx kn by auto
  have sl: "slot ks n < length x0" using slot_less [of n ks] n lk by simp
  have r1: "rd (map (\<lambda>h. h + 1 - mn) x0) n = Inr (?h + 1 - mn)" using n by simp
  have a1: "?h + 1 - mn - 1 = ?h - mn" by simp
  have a2: "?h - mn + mn = ?h" by simp
  have r2: "rd ?T (ks ! n) = Inr (of_nat (slot ks n))"
    using kS n lk by (simp add: nth_append offsets_after_slot del: offsets_after_nth)
  have w2: "wr ?T (ks ! n) (of_nat (slot ks n) + 1) = Inr (offsets_after ks S (Suc n) @ [e])"
  proof -
    have nk: "n < length ks" using n lk by simp
    have st: "(offsets_after ks S n :: 'w word list)[ks ! n := of_nat (slot ks n) + 1] =
              offsets_after ks S (Suc n)"
      using offsets_after_step [OF nk kS, where ?'a = 'w]
      by (simp only: offsets_after_slot [OF nk kS])
    show ?thesis using kS by (simp add: list_update_append st del: offsets_after_nth)
  qed
  have r3: "rd index0 n = Inr (index0 ! n)" using n len by simp
  have s4: "subscript isint (of_nat (slot ks n) :: 'w word) = Inr (slot ks n)"
    using sub sl by simp
  have w5: "wr (scatter ks index0 index0 n) (slot ks n) (index0 ! n) =
            Inr (scatter ks index0 index0 (Suc n))"
    using sl len by (simp add: scatter_Suc)
  have w6: "wr (scatter ks x0 x0 n) (slot ks n) ?h = Inr (scatter ks x0 x0 (Suc n))"
    using sl by (simp add: scatter_Suc)
  have "counting_sort_copy isint (map (\<lambda>h. h + 1 - mn) x0) index0 (Suc n) mn
           (offsets_after ks S 0 @ [e], x0, index0) =
        then_do (counting_sort_copy isint (map (\<lambda>h. h + 1 - mn) x0) index0 n mn
           (offsets_after ks S 0 @ [e], x0, index0))
          (\<lambda>(cnt, x, index).
             then_do (rd (map (\<lambda>h. h + 1 - mn) x0) n) (\<lambda>xc.
             then_do (rd cnt (unat (xc - 1))) (\<lambda>s.
             then_do (wr cnt (unat (xc - 1)) (s + 1)) (\<lambda>cnt.
             then_do (rd index0 n) (\<lambda>ic.
             then_do (subscript isint s) (\<lambda>si.
             then_do (wr index si ic) (\<lambda>index.
             then_do (wr x si (xc - 1 + mn)) (\<lambda>x.
             Inr (cnt, x, index)))))))))"
    using small by (simp add: counting_sort_copy_def for_c_small for_loop_Suc)
  also have "\<dots> = then_do (Inr (?T, scatter ks x0 x0 n, scatter ks index0 index0 n))
          (\<lambda>(cnt, x, index).
             then_do (rd (map (\<lambda>h. h + 1 - mn) x0) n) (\<lambda>xc.
             then_do (rd cnt (unat (xc - 1))) (\<lambda>s.
             then_do (wr cnt (unat (xc - 1)) (s + 1)) (\<lambda>cnt.
             then_do (rd index0 n) (\<lambda>ic.
             then_do (subscript isint s) (\<lambda>si.
             then_do (wr index si ic) (\<lambda>index.
             then_do (wr x si (xc - 1 + mn)) (\<lambda>x.
             Inr (cnt, x, index)))))))))"
    using Suc.IH n small(1) by simp
  also have "\<dots> = Inr (offsets_after ks S (Suc n) @ [e], scatter ks x0 x0 (Suc n),
                        scatter ks index0 index0 (Suc n))"
    by (simp only: then_do_Inr prod.case r1 a1 a2 kn r2 w2 r3 s4 w5 w6)
  finally show ?case .
qed


lemma scatter_pairs:
  fixes k :: "'a \<Rightarrow> nat" and hs :: "'a list" and ix :: "'b list"
  assumes len: "length ix = length hs"
  defines "Z \<equiv> sort_key (\<lambda>z. k (fst z)) (zip hs ix)"
  shows "scatter (map k hs) hs hs (length hs) = map fst Z"
    and "scatter (map k hs) ix ix (length hs) = map snd Z"
proof -
  let ?ks = "map k hs"
  have ks: "?ks = map (\<lambda>z. k (fst z)) (zip hs ix)"
    using len by (intro nth_equalityI) simp_all
  have "zip (scatter ?ks hs hs (length hs)) (scatter ?ks ix ix (length hs)) =
        scatter ?ks (zip hs ix) (zip hs ix) (length hs)"
    using len by (intro scatter_zip) simp_all
  also have "\<dots> = Z"
    unfolding Z_def ks using len scatter_sort_key [of "zip hs ix" "zip hs ix"]
    by simp
  finally have z: "zip (scatter ?ks hs hs (length hs)) (scatter ?ks ix ix (length hs)) = Z" .
  show "scatter ?ks hs hs (length hs) = map fst Z" "scatter ?ks ix ix (length hs) = map snd Z"
    unfolding z [symmetric] using len by (simp_all add: map_fst_zip map_snd_zip)
qed

lemma unat_plus_1: "unat (a :: u64) + 1 < 2 ^ 64 \<Longrightarrow> unat (a + 1) = Suc (unat a)"
  by (simp add: unat_word_ariths)

lemma counting_sort_text_sorts:
  fixes x index :: "u64 list" and mn mx :: u64
  assumes len: "length index = length x"
      and alloc: "\<forall>var. (fn, var) \<notin> set failing"
      and rng: "\<forall>h \<in> set x. mn \<le> h \<and> h \<le> mx"
      and fits: "unat (mx - mn) + 2 < 2 ^ 64"
      and small: "isint \<longrightarrow> length x < 2 ^ 31 \<and> unat (mx - mn) + 2 < 2 ^ 31"
      and sub: "\<forall>p < length x. subscript isint (of_nat p :: 'w word) = Inr p"
  shows "counting_sort_text isint TYPE('w::len word) fn msg failing x index (length x) mn mx =
           Inr (RC_OK, map fst (sort_key (\<lambda>z. unat (fst z)) (zip x index)),
                       map snd (sort_key (\<lambda>z. unat (fst z)) (zip x index)))"
proof -
  define R where "R = unat (mx - mn)"
  define S where "S = Suc R"
  define ks where "ks = map (\<lambda>h. unat (h - mn)) x"
  define N where "N = length x"
  have u1: "unat (mx - mn + 1) = S"
    using fits by (simp add: unat_plus_1 S_def R_def)
  have u2: "unat (mx - mn + 1 + 1) = Suc S"
  proof -
    have "unat (mx - mn + 1) + 1 < 2 ^ 64" unfolding u1 using fits by (simp add: S_def R_def)
    from unat_plus_1 [OF this] show ?thesis unfolding u1 .
  qed
  have u2': "unat (2 + (mx - mn)) = Suc S"
    using u2 by (simp add: add.commute)
  have key: "unat (h - mn) \<le> R \<and> unat (h - mn) = unat h - unat mn \<and> unat mn \<le> unat h"
    if "h \<in> set x" for h
  proof -
    from that rng have a: "mn \<le> h" "h \<le> mx" by auto
    then have b: "mn \<le> mx" by simp
    show ?thesis using a b by (simp add: R_def unat_sub word_le_nat_alt)
  qed
  have keys1: "\<forall>h \<in> set x. unat (h + 1 - mn) = Suc (unat (h - mn)) \<and> unat (h - mn) < S"
  proof
    fix h assume h: "h \<in> set x"
    have e: "h + 1 - mn = h - mn + 1" by simp
    have "unat (h - mn) + 1 < 2 ^ 64" using key [OF h] fits by (simp add: R_def)
    then show "unat (h + 1 - mn) = Suc (unat (h - mn)) \<and> unat (h - mn) < S"
      unfolding e using key [OF h] by (simp add: unat_plus_1 S_def)
  qed
  then have keys2: "\<forall>h \<in> set x. unat (h - mn) < S" by simp
  have sm: "isint \<longrightarrow> Suc S < 2 ^ 31" "isint \<longrightarrow> N < 2 ^ 31" "isint \<longrightarrow> Suc R < 2 ^ 31"
    using small by (auto simp: S_def R_def N_def)
  have a: "calloc failing fn ''xcopy'' N = Some (replicate N (0 :: u64))"
          "calloc failing fn ''icopy'' N = Some (replicate N (0 :: u64))"
          "calloc failing fn ''count'' (Suc S) = Some (replicate (Suc S) (0 :: 'w word))"
    using alloc by (simp_all add: calloc_succeeds)
  have z: "counting_sort_zero isint (Suc S) (replicate (Suc S) (0 :: 'w word)) =
           Inr (0 # counted ks S 0)"
    using counting_sort_zero_run [of "Suc S" "Suc S" isint] sm
    by (simp add: counted_0)
  have c1: "cumulated ks (Suc S) 1 = (0 # counted ks S N :: 'w word list)"
    using cumulated_1 [of ks S, where ?'a = 'w] by (simp add: ks_def N_def)
  have f: "counting_sort_freq isint x index N mn
             (0 # counted ks S 0 :: 'w word list, replicate N 0, replicate N 0) =
           Inr (0 # counted ks S N, map (\<lambda>h. h + 1 - mn) x, index)"
    unfolding ks_def N_def
    using counting_sort_freq_run [OF len keys1, of "length x" isint, where ?'w = 'w] sm len
    by (simp add: N_def)
  have c: "counting_sort_cumul isint S (0 # counted ks S N :: 'w word list) =
           Inr (offsets_after ks S 0 @ [of_nat (keys_equal ks R)])"
    unfolding S_def c1 [symmetric, unfolded S_def]
    using counting_sort_cumul_run [of R "Suc (Suc R)" isint ks, where ?'w = 'w] sm
    by (simp add: cumulated_all)
  have p: "counting_sort_copy isint (map (\<lambda>h. h + 1 - mn) x) index N mn
             (offsets_after ks S 0 @ [of_nat (keys_equal ks R) :: 'w word], x, index) =
           Inr (offsets_after ks S N @ [of_nat (keys_equal ks R)],
                scatter ks x x N, scatter ks index index N)"
    unfolding ks_def N_def
    using sm by (intro counting_sort_copy_run [OF len keys2 sub]) (simp_all add: N_def)
  have run: "counting_sort_text isint TYPE('w word) fn msg failing x index N mn mx =
             Inr (RC_OK, scatter ks x x N, scatter ks index index N)"
    by (simp add: counting_sort_text_def Let_def u1 u2 u2' a z f c p del: replicate_Suc)
  have ord: "sort_key (\<lambda>z. unat (fst z - mn)) (zip x index) =
             sort_key (\<lambda>z. unat (fst z)) (zip x index)"
  proof (rule sort_key_cong_order)
    fix a b assume ab: "a \<in> set (zip x index)" "b \<in> set (zip x index)"
    have m: "fst c \<in> set x" if "c \<in> set (zip x index)" for c
      using set_zip_leftD [of "fst c" "snd c" x index] that by simp
    have ka: "unat (fst a - mn) = unat (fst a) - unat mn" "unat mn \<le> unat (fst a)"
      using key [OF m [OF ab(1)]] by simp_all
    have kb: "unat (fst b - mn) = unat (fst b) - unat mn" "unat mn \<le> unat (fst b)"
      using key [OF m [OF ab(2)]] by simp_all
    show "unat (fst a - mn) \<le> unat (fst b - mn) \<longleftrightarrow> unat (fst a) \<le> unat (fst b)"
      unfolding ka(1) kb(1) using ka(2) kb(2) by linarith
  qed
  have fin: "scatter ks x x N = map fst (sort_key (\<lambda>z. unat (fst z)) (zip x index))"
            "scatter ks index index N = map snd (sort_key (\<lambda>z. unat (fst z)) (zip x index))"
    unfolding ks_def N_def ord [symmetric]
    by (rule scatter_pairs [OF len])+
  from run [unfolded fin] show ?thesis unfolding N_def .
qed


lemma subscript_u64: "p < 2 ^ 64 \<Longrightarrow> subscript False (of_nat p :: u64) = Inr p"
  by (simp add: subscript_def unat_of_nat)

lemma subscript_int: "p < 2 ^ 31 \<Longrightarrow> subscript True (of_nat p :: cint) = Inr p"
proof -
  assume p: "p < 2 ^ 31"
  have "sint (of_nat p :: cint) = int p"
    using p by (simp add: signed_of_nat signed_take_bit_int_eq_self)
  then show ?thesis by (simp add: subscript_def)
qed

lemma gf_counting_sort_sorts:
  fixes x index :: "u64 list" and mn mx :: u64
  assumes len: "length index = length x" and N: "length x < 2 ^ 64"
      and alloc: "\<forall>var. (''gf_counting_sort'', var) \<notin> set failing"
      and rng: "\<forall>h \<in> set x. mn \<le> h \<and> h \<le> mx"
      and fits: "unat (mx - mn) + 2 < 2 ^ 64"
  shows "gf_counting_sort failing x index (length x) mn mx =
           Inr (RC_OK, map fst (sort_key (\<lambda>z. unat (fst z)) (zip x index)),
                       map snd (sort_key (\<lambda>z. unat (fst z)) (zip x index)))"
  unfolding gf_counting_sort_def
proof (rule counting_sort_text_sorts [OF len alloc rng fits])
  show "False \<longrightarrow> length x < 2 ^ 31 \<and> unat (mx - mn) + 2 < 2 ^ 31" by simp
  show "\<forall>p<length x. subscript False (of_nat p :: u64) = Inr p"
    using N by (auto intro!: subscript_u64)
qed

lemma mf_counting_sort_index_sorts:
  fixes x index :: "u64 list" and mn mx :: u64
  assumes len: "length index = length x" and N: "length x < 2 ^ 31"
      and alloc: "\<forall>var. (''mf_counting_sort_index'', var) \<notin> set failing"
      and rng: "\<forall>h \<in> set x. mn \<le> h \<and> h \<le> mx"
      and fits: "unat (mx - mn) + 2 < 2 ^ 31"
  shows "mf_counting_sort_index failing x index (length x) mn mx =
           Inr (RC_OK, map fst (sort_key (\<lambda>z. unat (fst z)) (zip x index)),
                       map snd (sort_key (\<lambda>z. unat (fst z)) (zip x index)))"
  unfolding mf_counting_sort_index_def
proof (rule counting_sort_text_sorts [OF len alloc rng])
  show "unat (mx - mn) + 2 < 2 ^ 64" using fits by simp
  show "True \<longrightarrow> length x < 2 ^ 31 \<and> unat (mx - mn) + 2 < 2 ^ 31" using N fits by simp
  show "\<forall>p<length x. subscript True (of_nat p :: cint) = Inr p"
    using N by (auto intro!: subscript_int)
qed

section \<open>One pass of the radix sort with an index\<close>

lemma length_accumulated [simp]: "length (accumulated ks S m) = S"
  by (simp add: accumulated_def)

lemma accumulated_1: "accumulated ks S 1 = counted ks S (length ks)"
  by (rule nth_equalityI) (simp_all add: accumulated_def counted_def keys_below_Suc)

lemma accumulated_all: "accumulated ks S S = offsets_after ks S (length ks)"
  by (rule nth_equalityI) (simp_all add: accumulated_def offsets_after_def keys_below_Suc)

lemma accumulated_step:
  "m < S \<Longrightarrow> 0 < m \<Longrightarrow>
   (accumulated ks S m)[m := accumulated ks S m ! m + accumulated ks S m ! (m - 1)] =
   accumulated ks S (Suc m)"
  by (rule nth_equalityI)
     (auto simp: accumulated_def nth_list_update keys_below_Suc less_Suc_eq)

lemma scatter_down_0 [simp]: "scatter_down ks zs dst 0 = dst"
  by (simp add: scatter_down_def)

lemma scatter_down_Suc:
  "scatter_down ks zs dst (Suc n) = scatter_down ks zs (dst[slot ks n := zs ! n]) n"
  by (simp add: scatter_down_def)

lemma length_scatter_down [simp]: "length (scatter_down ks zs dst n) = length dst"
  by (induction n arbitrary: dst) (simp_all add: scatter_down_Suc)

lemma scatter_down_other:
  "(\<forall>j < n. slot ks j \<noteq> p) \<Longrightarrow> scatter_down ks zs dst n ! p = dst ! p"
  by (induction n arbitrary: dst) (simp_all add: scatter_down_Suc)

lemma scatter_down_nth:
  "n \<le> length ks \<Longrightarrow> length dst = length ks \<Longrightarrow> j < n \<Longrightarrow>
   scatter_down ks zs dst n ! slot ks j = zs ! j"
proof (induction n arbitrary: dst)
  case 0
  then show ?case by simp
next
  case (Suc n)
  show ?case
  proof (cases "j = n")
    case True
    have "\<forall>i < n. slot ks i \<noteq> slot ks n"
    proof (intro allI impI notI)
      fix i assume i: "i < n" "slot ks i = slot ks n"
      then have "i = n" using slot_inj [of i ks n] Suc.prems by simp
      with i show False by simp
    qed
    then have "scatter_down ks zs (dst[slot ks n := zs ! n]) n ! slot ks n =
               dst[slot ks n := zs ! n] ! slot ks n"
      by (rule scatter_down_other)
    with True Suc.prems show ?thesis
      by (simp add: scatter_down_Suc slot_less)
  next
    case False
    with Suc.prems have "j < n" by simp
    with Suc show ?thesis
      by (simp add: scatter_down_Suc)
  qed
qed

lemma scatter_down_eq:
  assumes "length dst = length ks"
  shows "scatter_down ks zs dst (length ks) = scatter ks zs dst (length ks)"
proof (rule nth_equalityI)
  show "length (scatter_down ks zs dst (length ks)) = length (scatter ks zs dst (length ks))"
    by simp
next
  fix p assume "p < length (scatter_down ks zs dst (length ks))"
  then have "p < length ks" using assms by simp
  then obtain j where j: "j < length ks" "slot ks j = p"
    using slot_surj [of p ks] by auto
  then show "scatter_down ks zs dst (length ks) ! p = scatter ks zs dst (length ks) ! p"
    using scatter_nth [of "length ks" ks dst j zs] scatter_down_nth [of "length ks" ks dst j zs]
      assms by simp
qed


lemma unat_div_mod:
  "unat (((h :: u64) div e) mod s) = (unat h div unat e) mod unat s"
  by (simp add: unat_mod unat_div)

lemma pass_freq_run:
  fixes x index :: "u64 list" and exp0 shift :: u64
  defines "ks \<equiv> map (\<lambda>h. (unat h div unat exp0) mod unat shift) x"
  assumes len: "length index = length x"
      and nz: "exp0 \<noteq> 0" "shift \<noteq> 0"
      and n: "n \<le> length x"
  shows "for_loop 0 n (\<lambda>i (cnt, xmod, outx, outi).
               then_do (rd x i) (\<lambda>h.
               then_do (wr outx i h) (\<lambda>outx.
               then_do (if exp0 = 0 \<or> shift = 0 then Inl DivideByZero
                        else Inr ((h div exp0) mod shift)) (\<lambda>m.
               then_do (wr xmod i m) (\<lambda>xmod.
               then_do (rd cnt (unat m)) (\<lambda>c.
               then_do (wr cnt (unat m) (c + 1)) (\<lambda>cnt.
               then_do (rd index i) (\<lambda>ix.
               then_do (wr outi i ix) (\<lambda>outi.
               Inr (cnt, xmod, outx, outi))))))))))
           (counted ks (unat shift) 0 :: cint list, replicate (length x) 0,
            replicate (length x) 0, replicate (length x) 0) =
         Inr (counted ks (unat shift) n,
              map (\<lambda>h. (h div exp0) mod shift) (take n x) @ replicate (length x - n) 0,
              take n x @ replicate (length x - n) 0,
              take n index @ replicate (length x - n) 0)"
  using n
proof (induction n)
  case 0
  then show ?case by simp
next
  case (Suc n)
  then have n: "n < length x" by simp
  let ?h = "x ! n"
  let ?m = "(?h div exp0) mod shift"
  have kn: "unat ?m = ks ! n" using n by (simp add: ks_def unat_div_mod)
  have s0: "0 < unat shift" using nz by (simp add: unat_gt_0)
  have kS: "ks ! n < unat shift" using n s0 by (simp add: ks_def)
  have nk: "n < length ks" using n by (simp add: ks_def)
  have r1: "rd x n = Inr ?h" using n by simp
  have w1: "wr (take n x @ replicate (length x - n) 0) n ?h =
            Inr (take (Suc n) x @ replicate (length x - Suc n) 0)"
    using n by (simp add: append_replicate_update take_Suc_conv_app_nth)
  have d: "(if exp0 = 0 \<or> shift = 0 then Inl DivideByZero else Inr ?m) = Inr ?m"
    using nz by simp
  have w2: "wr (map (\<lambda>h. (h div exp0) mod shift) (take n x) @ replicate (length x - n) 0) n ?m =
            Inr (map (\<lambda>h. (h div exp0) mod shift) (take (Suc n) x) @ replicate (length x - Suc n) 0)"
    using n by (simp add: append_replicate_update take_Suc_conv_app_nth)
  have r3: "rd (counted ks (unat shift) n :: cint list) (ks ! n) =
            Inr (counted ks (unat shift) n ! (ks ! n))"
    using kS by simp
  have w3: "wr (counted ks (unat shift) n :: cint list) (ks ! n)
              (counted ks (unat shift) n ! (ks ! n) + 1) = Inr (counted ks (unat shift) (Suc n))"
    using counted_step [OF nk kS, where ?'a = 32] kS by simp
  have r4: "rd index n = Inr (index ! n)" using n len by simp
  have w4: "wr (take n index @ replicate (length x - n) 0) n (index ! n) =
            Inr (take (Suc n) index @ replicate (length x - Suc n) 0)"
    using n len by (simp add: append_replicate_update take_Suc_conv_app_nth)
  show ?case
    unfolding for_loop_Suc [OF le0] Suc.IH [OF less_imp_le [OF n]]
    by (simp only: then_do_Inr prod.case r1 w1 d w2 kn r3 w3 r4 w4)
qed

lemma pass_cumul_run:
  fixes ks :: "nat list"
  assumes "m < S"
  shows "for_loop 1 (Suc m) (\<lambda>i cnt.
               then_do (rd cnt i) (\<lambda>c.
               then_do (rd cnt (i - 1)) (\<lambda>p.
               wr cnt i (c + p)))) (accumulated ks S 1 :: cint list) =
         Inr (accumulated ks S (Suc m))"
  using assms
proof (induction m)
  case 0
  then show ?case by simp
next
  case (Suc m)
  then have m: "Suc m < S" "m < S" by simp_all
  have le: "1 \<le> Suc m" by simp
  show ?case
    unfolding for_loop_Suc [OF le] Suc.IH [OF m(2)]
    using m accumulated_step [of "Suc m" S ks, where ?'a = 32]
    by simp
qed


lemma pass_down_run:
  fixes x0 i0 xs ix :: "u64 list" and ms :: "u64 list"
  defines "ks \<equiv> map unat ms"
  assumes len: "length ms = length x0" "length i0 = length x0"
               "length xs = length x0" "length ix = length x0"
      and small: "length x0 < 2 ^ 31"
      and keys: "\<forall>m \<in> set ms. unat m < S"
      and n: "n \<le> length x0"
  shows "for_down n (\<lambda>i (cnt, x, index).
               then_do (rd ms i) (\<lambda>m.
               then_do (rd cnt (unat m)) (\<lambda>cv.
               then_do (wr cnt (unat m) (cv - 1)) (\<lambda>cnt.
               then_do (subscript True (cv - 1)) (\<lambda>c.
               then_do (rd i0 i) (\<lambda>oi.
               then_do (wr index c oi) (\<lambda>index.
               then_do (rd x0 i) (\<lambda>ox.
               then_do (wr x c ox) (\<lambda>x.
               Inr (cnt, x, index))))))))))
           (offsets_after ks S n :: cint list, xs, ix) =
         Inr (offsets_after ks S 0, scatter_down ks x0 xs n, scatter_down ks i0 ix n)"
  using n len(3,4)
proof (induction n arbitrary: xs ix)
  case 0
  then show ?case by simp
next
  case (Suc n)
  then have n: "n < length x0" by simp
  have nk: "n < length ks" using n len by (simp add: ks_def)
  have kn: "unat (ms ! n) = ks ! n" using n len by (simp add: ks_def)
  have kS: "ks ! n < S" using keys n len kn [symmetric] by simp
  have sl: "slot ks n < length x0" using slot_less [OF nk] by (simp add: ks_def len)
  have cv: "(offsets_after ks S (Suc n) :: cint list) ! (ks ! n) = of_nat (slot ks n) + 1"
    using kS nk by (simp add: slot_def keys_equal_take_Suc)
  have r1: "rd ms n = Inr (ms ! n)" using n len by simp
  have r2: "rd (offsets_after ks S (Suc n) :: cint list) (ks ! n) = Inr (of_nat (slot ks n) + 1)"
    using kS by (simp add: cv del: offsets_after_nth)
  have a: "(of_nat (slot ks n) + 1 :: cint) - 1 = of_nat (slot ks n)" by simp
  have st: "(offsets_after ks S (Suc n) :: cint list)[ks ! n := of_nat (slot ks n)] =
            offsets_after ks S n"
  proof -
    have "(offsets_after ks S n :: cint list)[ks ! n := of_nat (slot ks n) + 1] =
          offsets_after ks S (Suc n)"
      using offsets_after_step [OF nk kS, where ?'a = 32]
      by (simp only: offsets_after_slot [OF nk kS])
    then have "(offsets_after ks S (Suc n) :: cint list)[ks ! n := of_nat (slot ks n)] =
               (offsets_after ks S n)[ks ! n := of_nat (slot ks n)]"
      by (simp only: list_update_overwrite flip: list_update_overwrite [of "offsets_after ks S n" "ks ! n" "of_nat (slot ks n) + 1" "of_nat (slot ks n)"])
    also have "\<dots> = offsets_after ks S n"
      using list_update_id [of "offsets_after ks S n :: cint list" "ks ! n"]
      by (simp only: offsets_after_slot [OF nk kS])
    finally show ?thesis .
  qed
  have w2: "wr (offsets_after ks S (Suc n) :: cint list) (ks ! n) (of_nat (slot ks n)) =
            Inr (offsets_after ks S n)"
    using kS by (simp add: st del: offsets_after_nth)
  have s3: "subscript True (of_nat (slot ks n) :: cint) = Inr (slot ks n)"
    using sl small by (intro subscript_int) simp
  have r4: "rd i0 n = Inr (i0 ! n)" using n len by simp
  have w4: "wr ix (slot ks n) (i0 ! n) = Inr (ix[slot ks n := i0 ! n])"
    using sl Suc.prems by simp
  have r5: "rd x0 n = Inr (x0 ! n)" using n by simp
  have w5: "wr xs (slot ks n) (x0 ! n) = Inr (xs[slot ks n := x0 ! n])"
    using sl Suc.prems by simp
  have ih: "for_down n (\<lambda>i (cnt, x, index).
               then_do (rd ms i) (\<lambda>m.
               then_do (rd cnt (unat m)) (\<lambda>cv.
               then_do (wr cnt (unat m) (cv - 1)) (\<lambda>cnt.
               then_do (subscript True (cv - 1)) (\<lambda>c.
               then_do (rd i0 i) (\<lambda>oi.
               then_do (wr index c oi) (\<lambda>index.
               then_do (rd x0 i) (\<lambda>ox.
               then_do (wr x c ox) (\<lambda>x.
               Inr (cnt, x, index))))))))))
           (offsets_after ks S n :: cint list, xs[slot ks n := x0 ! n], ix[slot ks n := i0 ! n]) =
         Inr (offsets_after ks S 0, scatter_down ks x0 (xs[slot ks n := x0 ! n]) n,
              scatter_down ks i0 (ix[slot ks n := i0 ! n]) n)"
    using Suc.prems n by (intro Suc.IH) simp_all
  show ?case
    unfolding for_down_Suc scatter_down_Suc
    by (simp only: then_do_Inr prod.case r1 kn r2 a w2 s3 r4 w4 r5 w5 ih)
qed


lemma mf_radix_sort_index_pass_sorts:
  fixes x index :: "u64 list" and exp0 shift :: u64
  assumes len: "length index = length x" and small: "length x < 2 ^ 31"
      and nz: "exp0 \<noteq> 0" "shift \<noteq> 0" and sh: "unat shift < 2 ^ 31"
      and stk: "4 * unat shift \<le> stack"
      and alloc: "\<forall>var. (''mf_radix_sort_index_pass'', var) \<notin> set failing"
  shows "mf_radix_sort_index_pass stack failing x index (length x) exp0 shift =
           Inr (RC_OK,
                map fst (sort_key (\<lambda>z. (unat (fst z) div unat exp0) mod unat shift) (zip x index)),
                map snd (sort_key (\<lambda>z. (unat (fst z) div unat exp0) mod unat shift) (zip x index)))"
proof -
  define N where "N = length x"
  define Sh where "Sh = unat shift"
  define ks where "ks = map (\<lambda>h. (unat h div unat exp0) mod unat shift) x"
  define ms where "ms = map (\<lambda>h. (h div exp0) mod shift) x"
  have kms: "map unat ms = ks" by (simp add: ms_def ks_def unat_div_mod)
  have lk: "length ks = N" by (simp add: ks_def N_def)
  have s0: "0 < Sh" using nz by (simp add: Sh_def unat_gt_0)
  have a: "calloc failing ''mf_radix_sort_index_pass'' ''xmod'' N = Some (replicate N (0 :: u64))"
          "calloc failing ''mf_radix_sort_index_pass'' ''outx'' N = Some (replicate N (0 :: u64))"
          "calloc failing ''mf_radix_sort_index_pass'' ''outi'' N = Some (replicate N (0 :: u64))"
    using alloc by (simp_all add: calloc_succeeds)
  have z: "for_int 0 Sh (\<lambda>i cnt. wr cnt i (0::cint)) (replicate Sh 0) =
           Inr (counted ks Sh 0)"
    using sh zero_loop_run [of Sh Sh, where ?'a = cint] by (simp add: Sh_def counted_0)
  have f: "for_int 0 N (\<lambda>i (cnt, xmod, outx, outi).
               then_do (rd x i) (\<lambda>h.
               then_do (wr outx i h) (\<lambda>outx.
               then_do (if exp0 = 0 \<or> shift = 0 then Inl DivideByZero
                        else Inr ((h div exp0) mod shift)) (\<lambda>m.
               then_do (wr xmod i m) (\<lambda>xmod.
               then_do (rd cnt (unat m)) (\<lambda>c.
               then_do (wr cnt (unat m) (c + 1)) (\<lambda>cnt.
               then_do (rd index i) (\<lambda>ix.
               then_do (wr outi i ix) (\<lambda>outi.
               Inr (cnt, xmod, outx, outi))))))))))
           (counted ks Sh 0 :: cint list, replicate N 0, replicate N 0, replicate N 0) =
         Inr (accumulated ks Sh 1, ms, x, index)"
    using pass_freq_run [OF len nz le_refl] small len accumulated_1 [of ks Sh, where ?'a = 32]
    by (simp add: N_def ks_def Sh_def ms_def)
  have c: "for_int 1 Sh (\<lambda>i cnt.
               then_do (rd cnt i) (\<lambda>c.
               then_do (rd cnt (i - 1)) (\<lambda>p.
               wr cnt i (c + p)))) (accumulated ks Sh 1 :: cint list) =
           Inr (offsets_after ks Sh N)"
  proof -
    have e: "Sh = Suc (Sh - 1)" using s0 by simp
    have m: "Sh - 1 < Sh" using s0 by simp
    show ?thesis
      unfolding for_int_small [OF sh [folded Sh_def]]
      using pass_cumul_run [OF m, of ks] accumulated_all [of ks Sh, where ?'a = 32] s0
      by (simp add: lk)
  qed
  have keys: "\<forall>m \<in> set ms. unat m < Sh"
    using s0 by (auto simp: ms_def unat_div_mod Sh_def)
  have d: "for_down N (\<lambda>i (cnt, xa, ia).
               then_do (rd ms i) (\<lambda>m.
               then_do (rd cnt (unat m)) (\<lambda>cv.
               then_do (wr cnt (unat m) (cv - 1)) (\<lambda>cnt.
               then_do (subscript True (cv - 1)) (\<lambda>c.
               then_do (rd index i) (\<lambda>oi.
               then_do (wr ia c oi) (\<lambda>ia.
               then_do (rd x i) (\<lambda>ox.
               then_do (wr xa c ox) (\<lambda>xa.
               Inr (cnt, xa, ia))))))))))
           (offsets_after ks Sh N :: cint list, x, index) =
         Inr (offsets_after ks Sh 0, scatter_down ks x x N, scatter_down ks index index N)"
    unfolding kms [symmetric] N_def
    by (rule pass_down_run [OF _ len refl len small keys le_refl]) (simp add: ms_def)
  have g2: "\<not> stack < 4 * Sh" using stk by (simp add: Sh_def)
  note g = if_not_P [OF nz(2)] if_not_P [OF g2]
  have run: "mf_radix_sort_index_pass stack failing x index N exp0 shift =
             Inr (RC_OK, scatter_down ks x x N, scatter_down ks index index N)"
    unfolding mf_radix_sort_index_pass_def Let_def a Sh_def [symmetric]
    by (simp only: g option.simps option.sel if_False z f c d then_do_Inr prod.case)
  have fin: "scatter_down ks x x N = map fst (sort_key (\<lambda>z. (unat (fst z) div unat exp0) mod unat shift) (zip x index))"
            "scatter_down ks index index N = map snd (sort_key (\<lambda>z. (unat (fst z) div unat exp0) mod unat shift) (zip x index))"
    using scatter_down_eq [of x ks x] scatter_down_eq [of index ks index]
      scatter_pairs [OF len, of "\<lambda>h. (unat h div unat exp0) mod unat shift"] len
    by (simp_all add: lk N_def flip: ks_def)
  from run [unfolded fin] show ?thesis unfolding N_def .
qed

section \<open>Stability\<close>

lemma slot_mono_equal:
  assumes "i < j" "j < length ks" "ks ! i = ks ! j"
  shows "slot ks i < slot ks j"
proof -
  have i: "i < length ks" using assms by simp
  have "keys_equal (take (Suc i) ks) (ks ! i) \<le> keys_equal (take j ks) (ks ! i)"
    using assms(1) by (intro keys_equal_take_mono) simp
  then have "keys_equal (take i ks) (ks ! i) < keys_equal (take j ks) (ks ! i)"
    using i by (simp add: keys_equal_take_Suc)
  then show ?thesis using assms(3) by (simp add: slot_def)
qed

lemma slot_bij: "bij_betw (slot ks) {..<length ks} {..<length ks}"
  unfolding bij_betw_def
proof
  show "inj_on (slot ks) {..<length ks}"
    by (auto intro!: inj_onI dest: slot_inj)
  show "slot ks ` {..<length ks} = {..<length ks}"
  proof (intro equalityI subsetI)
    fix p assume "p \<in> slot ks ` {..<length ks}"
    then show "p \<in> {..<length ks}" by (auto simp: slot_less)
  next
    fix p assume "p \<in> {..<length ks}"
    then obtain j where "j < length ks" "slot ks j = p"
      using slot_surj [of p ks] by auto
    then show "p \<in> slot ks ` {..<length ks}" by auto
  qed
qed

lemma sort_key_stable_output:
  fixes H I :: "u64 list" and key :: "u64 \<Rightarrow> nat"
  assumes len: "length I = length H"
  shows "stable_output key H I
           (map fst (sort_key (\<lambda>z. key (fst z)) (zip H I)))
           (map snd (sort_key (\<lambda>z. key (fst z)) (zip H I)))"
proof -
  let ?zs = "zip H I"
  let ?Z = "sort_key (\<lambda>z. key (fst z)) ?zs"
  let ?ks = "map key H"
  have ks: "map (\<lambda>z. key (fst z)) ?zs = ?ks"
    using len by (intro nth_equalityI) simp_all
  have lz: "length ?zs = length H" using len by simp
  have lk: "length ?ks = length H" by simp
  have at: "?Z ! slot ?ks i = (H ! i, I ! i)" if "i < length H" for i
    using sort_key_slot [of i ?zs "\<lambda>z. key (fst z)"] that len unfolding ks by simp
  have sl: "slot ?ks i < length ?Z" if "i < length H" for i
    using slot_less [of i ?ks] that len by simp
  have "bij_betw (slot ?ks) {..<length H} {..<length H}"
    using slot_bij [of ?ks] by simp
  moreover have "\<forall>i < length H. map fst ?Z ! slot ?ks i = H ! i \<and> map snd ?Z ! slot ?ks i = I ! i"
    using at sl by (simp add: nth_map)
  moreover have "\<forall>i j. i < j \<and> j < length H \<and> key (H ! i) = key (H ! j) \<longrightarrow>
                   slot ?ks i < slot ?ks j"
    using slot_mono_equal [of _ _ ?ks] by simp
  ultimately show ?thesis
    unfolding stable_output_def using len by (intro conjI exI [of _ "slot ?ks"]) simp_all
qed

lemma sorted_sort_key_fst:
  "sorted (map key (map fst (sort_key (\<lambda>z. key (fst z)) zs)))"
proof -
  have "map key (map fst (sort_key (\<lambda>z. key (fst z)) zs)) =
        map (\<lambda>z. key (fst z)) (sort_key (\<lambda>z. key (fst z)) zs)"
    by (simp add: comp_def)
  then show ?thesis by (simp only: sorted_sort_key)
qed

lemma sorts_stably_sort_key:
  fixes H I :: "u64 list" and key :: "u64 \<Rightarrow> nat"
  assumes "length I = length H"
      and "r = Inr (RC_OK, map fst (sort_key (\<lambda>z. key (fst z)) (zip H I)),
                           map snd (sort_key (\<lambda>z. key (fst z)) (zip H I)))"
  shows "sorts_stably key H I r"
  unfolding sorts_stably_def
  using sort_key_stable_output [OF assms(1), of key] sorted_sort_key_fst [of key "zip H I"] assms(2)
  by blast

section \<open>Arrays longer than the counters\<close>

lemma take_drop_update:
  "n < length xs \<Longrightarrow> length ys = length xs \<Longrightarrow>
   (take n xs @ drop n ys)[n := xs ! n] = take (Suc n) xs @ drop (Suc n) ys"
  by (rule nth_equalityI) (auto simp: nth_append nth_list_update min_def less_Suc_eq)

lemma radix_loop_const:
  fixes src isrc dst idst :: "u64 list" and tab :: "u32 list"
  assumes len: "length isrc = length src" "length dst = length src" "length idst = length src"
      and dig: "\<forall>h \<in> set src. digit bits msk h = 0"
      and tab: "tab \<noteq> []" "tab ! 0 = 0"
      and n: "n \<le> length src" "n \<le> 2 ^ 32"
  shows "radix_loop bits msk n src isrc (tab, dst, idst) =
          Inr (tab[0 := of_nat n], take n src @ drop n dst, take n isrc @ drop n idst)"
  using n
proof (induction n)
  case 0
  have "tab[0 := 0] = tab" using tab(2) list_update_id [of tab 0] by simp
  then show ?case by (simp add: radix_loop_def)
next
  case (Suc n)
  then have n: "n < length src" "n < 2 ^ 32" by simp_all
  have d: "digit bits msk (src ! n) = 0" using dig n by simp
  have t0: "0 < length tab" using tab by simp
  have u: "unat (of_nat n :: u32) = n" using n by (intro unat_of_nat_u32) simp
  have r0: "rd src n = Inr (src ! n)" "rd isrc n = Inr (isrc ! n)" using n len by simp_all
  have r1: "rd (tab[0 := of_nat n]) (unat (0 :: u32)) = Inr (of_nat n)" using t0 by simp
  have w1: "wr (take n src @ drop n dst) n (src ! n) = Inr (take (Suc n) src @ drop (Suc n) dst)"
    using n len by (simp add: take_drop_update)
  have w2: "wr (take n isrc @ drop n idst) n (isrc ! n) = Inr (take (Suc n) isrc @ drop (Suc n) idst)"
    using n len by (simp add: take_drop_update)
  have i: "incr (tab[0 := of_nat n]) 0 = Inr (tab[0 := of_nat (Suc n)])"
    using t0 by (simp add: incr_def add.commute)
  have "radix_loop bits msk (Suc n) src isrc (tab, dst, idst) =
        then_do (radix_loop bits msk n src isrc (tab, dst, idst))
          (\<lambda>(counts, dst, idst).
             then_do (rd src n) (\<lambda>h.
             then_do (rd counts (unat (digit bits msk h))) (\<lambda>c.
             then_do (wr dst (unat c) h) (\<lambda>dst.
             then_do (rd isrc n) (\<lambda>ix.
             then_do (wr idst (unat c) ix) (\<lambda>idst.
             then_do (incr counts (digit bits msk h)) (\<lambda>counts.
             Inr (counts, dst, idst))))))))"
    by (simp add: radix_loop_def for_loop_Suc)
  also have "\<dots> = Inr (tab[0 := of_nat (Suc n)], take (Suc n) src @ drop (Suc n) dst,
                        take (Suc n) isrc @ drop (Suc n) idst)"
    unfolding Suc.IH [OF less_imp_le [OF n(1)] less_imp_le [OF n(2)]]
    by (simp only: then_do_Inr prod.case r0 d r1 u w1 w2 i)
  finally show ?case .
qed

lemma radix_loop_wraps:
  fixes src isrc dst idst :: "u64 list" and tab :: "u32 list"
  assumes len: "length src = 4294967297" "length isrc = 4294967297"
               "length dst = 4294967297" "length idst = 4294967297"
      and dig: "\<forall>h \<in> set src. digit bits msk h = 0"
      and tab: "tab \<noteq> []" "tab ! 0 = 0"
  shows "radix_loop bits msk 4294967297 src isrc (tab, dst, idst) =
          Inr (tab[0 := 1],
               (take 4294967296 src @ drop 4294967296 dst)[0 := src ! 4294967296],
               (take 4294967296 isrc @ drop 4294967296 idst)[0 := isrc ! 4294967296])"
proof -
  let ?M = "4294967296 :: nat"
  have S: "(4294967297 :: nat) = Suc ?M" by simp
  have d: "digit bits msk (src ! ?M) = 0" using dig len by simp
  have t0: "0 < length tab" using tab by simp
  have "(2 ^ 32 :: u32) = 0" by simp
  then have z: "(4294967296 :: u32) = 0" by simp
  have run: "radix_loop bits msk ?M src isrc (tab, dst, idst) =
          Inr (tab, take ?M src @ drop ?M dst, take ?M isrc @ drop ?M idst)"
    using radix_loop_const [of isrc src dst idst bits msk tab ?M] len dig tab
      list_update_id [of tab 0]
    by (simp add: z)
  have r0: "rd src ?M = Inr (src ! ?M)" "rd isrc ?M = Inr (isrc ! ?M)" using len by simp_all
  have r1: "rd tab (unat (0 :: u32)) = Inr 0" using t0 tab by simp
  have w1: "wr (take ?M src @ drop ?M dst) (unat (0 :: u32)) (src ! ?M) =
            Inr ((take ?M src @ drop ?M dst)[0 := src ! ?M])"
    using len by simp
  have w2: "wr (take ?M isrc @ drop ?M idst) (unat (0 :: u32)) (isrc ! ?M) =
            Inr ((take ?M isrc @ drop ?M idst)[0 := isrc ! ?M])"
    using len by simp
  have i: "incr tab 0 = Inr (tab[0 := 1])"
    using t0 tab by (simp add: incr_def)
  have "radix_loop bits msk (Suc ?M) src isrc (tab, dst, idst) =
        then_do (radix_loop bits msk ?M src isrc (tab, dst, idst))
          (\<lambda>(counts, dst, idst).
             then_do (rd src ?M) (\<lambda>h.
             then_do (rd counts (unat (digit bits msk h))) (\<lambda>c.
             then_do (wr dst (unat c) h) (\<lambda>dst.
             then_do (rd isrc ?M) (\<lambda>ix.
             then_do (wr idst (unat c) ix) (\<lambda>idst.
             then_do (incr counts (digit bits msk h)) (\<lambda>counts.
             Inr (counts, dst, idst))))))))"
    unfolding radix_loop_def by (rule for_loop_Suc) simp
  also have "\<dots> = Inr (tab[0 := 1], (take ?M src @ drop ?M dst)[0 := src ! ?M],
                        (take ?M isrc @ drop ?M idst)[0 := isrc ! ?M])"
    unfolding run
    by (simp only: then_do_Inr prod.case r0 d r1 w1 w2 i)
  finally show ?thesis unfolding S .
qed


lemma wrapped_arrays:
  "(take 4294967296 (replicate 4294967297 (0 :: u64)) @ drop 4294967296 (replicate 4294967297 0))
     [0 := replicate 4294967297 0 ! 4294967296] = replicate 4294967297 0"
  "(take 4294967296 (replicate 4294967297 (7 :: u64)) @ drop 4294967296 (replicate 4294967297 0))
     [0 := replicate 4294967297 7 ! 4294967296] = replicate 4294967296 7 @ [0]"
  "(take 4294967296 (replicate 4294967296 (7 :: u64) @ [0]) @ drop 4294967296 (replicate 4294967297 7))
     [0 := (replicate 4294967296 7 @ [0]) ! 4294967296] = (replicate 4294967297 7)[0 := 0]"
  "(take 4294967296 ((replicate 4294967297 (7 :: u64))[0 := 0]) @
    drop 4294967296 (replicate 4294967296 7 @ [0]))
     [0 := (replicate 4294967297 7)[0 := 0] ! 4294967296] = replicate 4294967296 7 @ [0]"
  "(take 4294967296 (replicate 4294967296 (7 :: u64) @ [0]) @
    drop 4294967296 ((replicate 4294967297 7)[0 := 0]))
     [0 := (replicate 4294967296 7 @ [0]) ! 4294967296] = (replicate 4294967297 7)[0 := 0]"
  by (rule nth_equalityI; auto simp: nth_append nth_list_update)+

lemma digit_of_0: "digit bits msk 0 = 0"
  by (simp add: digit_def)

lemma wrapped_pass:
  fixes isrc idst :: "u64 list" and tab :: "u32 list"
  assumes "tab \<noteq> []" "tab ! 0 = 0" "length isrc = 4294967297" "length idst = 4294967297"
  shows "radix_loop bits msk 4294967297 (replicate 4294967297 0) isrc
           (tab, replicate 4294967297 0, idst) =
         Inr (tab[0 := 1], replicate 4294967297 0,
              (take 4294967296 isrc @ drop 4294967296 idst)[0 := isrc ! 4294967296])"
proof -
  let ?H = "replicate 4294967297 (0 :: u64)"
  have "radix_loop bits msk 4294967297 ?H isrc (tab, ?H, idst) =
          Inr (tab[0 := 1],
               (take 4294967296 ?H @ drop 4294967296 ?H)[0 := ?H ! 4294967296],
               (take 4294967296 isrc @ drop 4294967296 idst)[0 := isrc ! 4294967296])"
    using assms by (intro radix_loop_wraps) (simp_all add: digit_of_0)
  then show ?thesis by (simp only: wrapped_arrays)
qed

text \<open>
  Four billion rows with the key 0 and the index entry 7, and one more: the offset of
  the digit 0 is a \<open>uint32_t\<close> that is back at 0 when the last row is stored, so every
  redistribution loop stores the last row on top of the first. \<open>A\<close> is the caller's index,
  \<open>B\<close> the copy; the loops go from \<open>A\<close> to \<open>B\<close> and back.
\<close>

lemma wrapped_passes:
  fixes tab :: "u32 list"
  assumes "tab \<noteq> []" "tab ! 0 = 0"
  shows "radix_loop bits msk 4294967297 (replicate 4294967297 0) (replicate 4294967297 7)
           (tab, replicate 4294967297 0, replicate 4294967297 0) =
         Inr (tab[0 := 1], replicate 4294967297 0, replicate 4294967296 7 @ [0])"
    and "radix_loop bits msk 4294967297 (replicate 4294967297 0) (replicate 4294967296 7 @ [0])
           (tab, replicate 4294967297 0, replicate 4294967297 7) =
         Inr (tab[0 := 1], replicate 4294967297 0, (replicate 4294967297 7)[0 := 0])"
    and "radix_loop bits msk 4294967297 (replicate 4294967297 0) ((replicate 4294967297 7)[0 := 0])
           (tab, replicate 4294967297 0, replicate 4294967296 7 @ [0]) =
         Inr (tab[0 := 1], replicate 4294967297 0, replicate 4294967296 7 @ [0])"
    and "radix_loop bits msk 4294967297 (replicate 4294967297 0) (replicate 4294967296 7 @ [0])
           (tab, replicate 4294967297 0, (replicate 4294967297 7)[0 := 0]) =
         Inr (tab[0 := 1], replicate 4294967297 0, (replicate 4294967297 7)[0 := 0])"
proof -
  have l: "length (replicate 4294967296 (7 :: u64) @ [0]) = 4294967297"
          "length ((replicate 4294967297 (7 :: u64))[0 := 0]) = 4294967297"
          "length (replicate 4294967297 (7 :: u64)) = 4294967297"
          "length (replicate 4294967297 (0 :: u64)) = 4294967297"
    by simp_all
  show "radix_loop bits msk 4294967297 (replicate 4294967297 0) (replicate 4294967297 7)
           (tab, replicate 4294967297 0, replicate 4294967297 0) =
         Inr (tab[0 := 1], replicate 4294967297 0, replicate 4294967296 7 @ [0])"
    using wrapped_pass [OF assms l(3) l(4)] by (simp only: wrapped_arrays)
  show "radix_loop bits msk 4294967297 (replicate 4294967297 0) (replicate 4294967296 7 @ [0])
           (tab, replicate 4294967297 0, replicate 4294967297 7) =
         Inr (tab[0 := 1], replicate 4294967297 0, (replicate 4294967297 7)[0 := 0])"
    using wrapped_pass [OF assms l(1) l(3)] by (simp only: wrapped_arrays)
  show "radix_loop bits msk 4294967297 (replicate 4294967297 0) ((replicate 4294967297 7)[0 := 0])
           (tab, replicate 4294967297 0, replicate 4294967296 7 @ [0]) =
         Inr (tab[0 := 1], replicate 4294967297 0, replicate 4294967296 7 @ [0])"
    using wrapped_pass [OF assms l(2) l(1)] by (simp only: wrapped_arrays)
  show "radix_loop bits msk 4294967297 (replicate 4294967297 0) (replicate 4294967296 7 @ [0])
           (tab, replicate 4294967297 0, (replicate 4294967297 7)[0 := 0]) =
         Inr (tab[0 := 1], replicate 4294967297 0, (replicate 4294967297 7)[0 := 0])"
    using wrapped_pass [OF assms l(1) l(2)] by (simp only: wrapped_arrays)
qed

lemma offsets_after_first:
  "0 < S \<Longrightarrow> (offsets_after ks S 0 :: u32 list) \<noteq> [] \<and> (offsets_after ks S 0 :: u32 list) ! 0 = 0"
  by (auto simp: keys_equal_def offsets_after_def)

lemma radix_sort16_wraps:
  "gf_radix_sort16 [] (replicate 4294967297 0) (replicate 4294967297 7) 4294967297 =
     Inr (RC_OK, replicate 4294967297 0, (replicate 4294967297 7)[0 := 0])"
proof -
  let ?H = "replicate 4294967297 (0 :: u64)"
  define K where "K = (\<lambda>bits. map (\<lambda>h. unat (digit bits 0xffff h)) ?H)"
  define T where "T = (\<lambda>bits. offsets_after (K bits) 65536 0 :: u32 list)"
  have T: "T bits \<noteq> []" "T bits ! 0 = 0" for bits
    using offsets_after_first [of 65536 "K bits"] by (simp_all add: T_def)
  have zero: "radix16_zero 65536
      \<lparr>c4 = replicate 65536 0, c3 = replicate 65536 0, c2 = replicate 65536 0, c1 = replicate 65536 0\<rparr> =
      Inr \<lparr>c4 = counted (K 0) 65536 0, c3 = counted (K 16) 65536 0,
           c2 = counted (K 32) 65536 0, c1 = counted (K 48) 65536 0\<rparr>"
    by (simp add: radix16_zero_run counted_0)
  have cnt: "radix16_counts ?H 4294967297
      \<lparr>c4 = counted (K 0) 65536 0, c3 = counted (K 16) 65536 0,
       c2 = counted (K 32) 65536 0, c1 = counted (K 48) 65536 0\<rparr> =
      Inr \<lparr>c4 = prefixed (K 0) 65536 0, c3 = prefixed (K 16) 65536 0,
           c2 = prefixed (K 32) 65536 0, c1 = prefixed (K 48) 65536 0\<rparr>"
    unfolding K_def using radix16_counts_run [of 4294967297 ?H] by (simp add: prefixed_0)
  have offs: "radix16_offsets 65536
      (\<lparr>c4 = prefixed (K 0) 65536 0, c3 = prefixed (K 16) 65536 0,
        c2 = prefixed (K 32) 65536 0, c1 = prefixed (K 48) 65536 0\<rparr>, 0, 0, 0, 0) =
      Inr (\<lparr>c4 = T 0, c3 = T 16, c2 = T 32, c1 = T 48\<rparr>,
           of_nat (keys_below (K 0) 65536), of_nat (keys_below (K 16) 65536),
           of_nat (keys_below (K 32) 65536), of_nat (keys_below (K 48) 65536))"
    by (simp add: radix16_offsets_run prefixed_all T_def)
  show ?thesis
    unfolding gf_radix_sort16_def
    by (simp add: zero cnt offs wrapped_passes [OF T])
qed

lemma radix_psort16_wraps:
  "gf_radix_psort16 [] (replicate 4294967297 0) (replicate 4294967297 7) 4294967297 =
     Inr (RC_OK, replicate 4294967297 0, (replicate 4294967297 7)[0 := 0])"
proof -
  let ?H = "replicate 4294967297 (0 :: u64)"
  define T where "T = (\<lambda>t. offsets_after (map (\<lambda>h. unat (digit (16 * t) 0xffff h)) ?H) 65536 0 :: u32 list)"
  have T: "T t \<noteq> []" "T t ! 0 = 0" for t
    using offsets_after_first [of 65536] by (simp_all add: T_def)
  have w: "gf_radix_counts16
           \<lparr>thread = t, counts = Some (replicate 65536 0), hash = ?H, psize = 65536,
            pN = 4294967297\<rparr> = Inr (T t)" for t
    unfolding T_def using gf_radix_counts16_run [of t ?H] by simp
  show ?thesis
    unfolding gf_radix_psort16_def
    by (simp add: w wrapped_passes [OF T])
qed

lemma radix_sort8_wraps:
  "gf_radix_sort8 [] (replicate 4294967297 0) (replicate 4294967297 7) 4294967297 =
     Inr (RC_OK, replicate 4294967297 0, (replicate 4294967297 7)[0 := 0])"
proof -
  let ?H = "replicate 4294967297 (0 :: u64)"
  define K where "K = (\<lambda>bits. map (\<lambda>h. unat (digit bits 0xff h)) ?H)"
  define T where "T = (\<lambda>bits. offsets_after (K bits) 256 0 :: u32 list)"
  have T: "T bits \<noteq> []" "T bits ! 0 = 0" for bits
    using offsets_after_first [of 256 "K bits"] by (simp_all add: T_def)
  have cnt: "radix8_counts ?H 4294967297
      \<lparr>b8 = replicate 256 0, b7 = replicate 256 0, b6 = replicate 256 0, b5 = replicate 256 0, b4 = replicate 256 0, b3 = replicate 256 0, b2 = replicate 256 0, b1 = replicate 256 0\<rparr> =
      Inr \<lparr>b8 = prefixed (K 0) 256 0, b7 = prefixed (K 8) 256 0, b6 = prefixed (K 16) 256 0, b5 = prefixed (K 24) 256 0, b4 = prefixed (K 32) 256 0, b3 = prefixed (K 40) 256 0, b2 = prefixed (K 48) 256 0, b1 = prefixed (K 56) 256 0\<rparr>"
    unfolding K_def
    using radix8_counts_run [of 4294967297 ?H]
    by (simp add: counted_0 prefixed_0)
  have offs: "radix8_offsets 256
      (\<lparr>b8 = prefixed (K 0) 256 0, b7 = prefixed (K 8) 256 0, b6 = prefixed (K 16) 256 0, b5 = prefixed (K 24) 256 0, b4 = prefixed (K 32) 256 0, b3 = prefixed (K 40) 256 0, b2 = prefixed (K 48) 256 0, b1 = prefixed (K 56) 256 0\<rparr>, [0, 0, 0, 0, 0, 0, 0, 0]) =
      Inr (\<lparr>b8 = T 0, b7 = T 8, b6 = T 16, b5 = T 24, b4 = T 32, b3 = T 40, b2 = T 48, b1 = T 56\<rparr>,
           [of_nat (keys_below (K 0) 256), of_nat (keys_below (K 8) 256), of_nat (keys_below (K 16) 256), of_nat (keys_below (K 24) 256), of_nat (keys_below (K 32) 256), of_nat (keys_below (K 40) 256), of_nat (keys_below (K 48) 256), of_nat (keys_below (K 56) 256)])"
    using radix8_offsets_run [of 256 256 K] by (simp add: prefixed_all T_def)
  show ?thesis
    unfolding gf_radix_sort8_def
    by (simp add: cnt offs wrapped_passes [OF T])
qed


lemma stable_output_index:
  assumes "stable_output key H I H' I'" "length I = length H" "p < length H"
  shows "I' ! p \<in> set I"
proof -
  from assms(1) obtain pos where bij: "bij_betw pos {..<length H} {..<length H}"
      and at: "\<forall>i < length H. H' ! pos i = H ! i \<and> I' ! pos i = I ! i"
    unfolding stable_output_def by blast
  from bij assms(3) obtain i where i: "i < length H" "pos i = p"
    unfolding bij_betw_def by (metis imageE lessThan_iff)
  with at have "I' ! p = I ! i" by auto
  with i assms(2) show ?thesis by simp
qed

lemma wrapped_not_stable:
  "\<not> sorts_stably unat (replicate 4294967297 0) (replicate 4294967297 7)
       (Inr (RC_OK, replicate 4294967297 0, (replicate 4294967297 7)[0 := 0]))"
proof
  assume "sorts_stably unat (replicate 4294967297 0) (replicate 4294967297 7)
       (Inr (RC_OK, replicate 4294967297 0, (replicate 4294967297 7)[0 := 0]))"
  then have "stable_output unat (replicate 4294967297 0) (replicate 4294967297 7)
       (replicate 4294967297 0) ((replicate 4294967297 7)[0 := 0])"
    unfolding sorts_stably_def by simp
  from stable_output_index [OF this, of 0] show False by simp
qed

lemma mf_radix_sort_index_pass_overflows:
  fixes x index :: "u64 list" and exp0 shift :: u64
  assumes len: "length index = length x" and big: "2 ^ 31 \<le> length x"
      and nz: "exp0 \<noteq> 0" "shift \<noteq> 0" and sh: "unat shift < 2 ^ 31"
      and stk: "4 * unat shift \<le> stack"
      and alloc: "\<forall>var. (''mf_radix_sort_index_pass'', var) \<notin> set failing"
  shows "mf_radix_sort_index_pass stack failing x index (length x) exp0 shift = Inl Overflow"
proof -
  define N where "N = length x"
  define Sh where "Sh = unat shift"
  define ks where "ks = map (\<lambda>h. (unat h div unat exp0) mod unat shift) x"
  have a: "calloc failing ''mf_radix_sort_index_pass'' ''xmod'' N = Some (replicate N (0 :: u64))"
          "calloc failing ''mf_radix_sort_index_pass'' ''outx'' N = Some (replicate N (0 :: u64))"
          "calloc failing ''mf_radix_sort_index_pass'' ''outi'' N = Some (replicate N (0 :: u64))"
    using alloc by (simp_all add: calloc_succeeds)
  have z: "for_int 0 Sh (\<lambda>i cnt. wr cnt i (0::cint)) (replicate Sh 0) =
           Inr (counted ks Sh 0)"
    using sh zero_loop_run [of Sh Sh, where ?'a = cint] by (simp add: Sh_def counted_0)
  have nb: "\<not> N < 2 ^ 31" using big by (simp add: N_def)
  have fl: "for_loop 0 (2 ^ 31) (\<lambda>i (cnt, xmod, outx, outi).
               then_do (rd x i) (\<lambda>h.
               then_do (wr outx i h) (\<lambda>outx.
               then_do (if exp0 = 0 \<or> shift = 0 then Inl DivideByZero
                        else Inr ((h div exp0) mod shift)) (\<lambda>m.
               then_do (wr xmod i m) (\<lambda>xmod.
               then_do (rd cnt (unat m)) (\<lambda>c.
               then_do (wr cnt (unat m) (c + 1)) (\<lambda>cnt.
               then_do (rd index i) (\<lambda>ix.
               then_do (wr outi i ix) (\<lambda>outi.
               Inr (cnt, xmod, outx, outi))))))))))
           (counted ks Sh 0 :: cint list, replicate N 0, replicate N 0, replicate N 0) =
         Inr (counted ks Sh (2 ^ 31),
              map (\<lambda>h. (h div exp0) mod shift) (take (2 ^ 31) x) @ replicate (N - 2 ^ 31) 0,
              take (2 ^ 31) x @ replicate (N - 2 ^ 31) 0,
              take (2 ^ 31) index @ replicate (N - 2 ^ 31) 0)"
    unfolding ks_def Sh_def N_def by (rule pass_freq_run [OF len nz big])
  have f: "for_int 0 N (\<lambda>i (cnt, xmod, outx, outi).
               then_do (rd x i) (\<lambda>h.
               then_do (wr outx i h) (\<lambda>outx.
               then_do (if exp0 = 0 \<or> shift = 0 then Inl DivideByZero
                        else Inr ((h div exp0) mod shift)) (\<lambda>m.
               then_do (wr xmod i m) (\<lambda>xmod.
               then_do (rd cnt (unat m)) (\<lambda>c.
               then_do (wr cnt (unat m) (c + 1)) (\<lambda>cnt.
               then_do (rd index i) (\<lambda>ix.
               then_do (wr outi i ix) (\<lambda>outi.
               Inr (cnt, xmod, outx, outi))))))))))
           (counted ks Sh 0 :: cint list, replicate N 0, replicate N 0, replicate N 0) =
         Inl Overflow"
    unfolding for_int_def by (simp only: if_not_P [OF nb] fl then_do_Inr)
  have g2: "\<not> stack < 4 * Sh" using stk by (simp add: Sh_def)
  note g = if_not_P [OF nz(2)] if_not_P [OF g2]
  show ?thesis
    unfolding mf_radix_sort_index_pass_def Let_def N_def [symmetric] a Sh_def [symmetric]
    by (simp only: g option.simps option.sel if_False z f then_do_Inr then_do_Inl)
qed

lemma mf_counting_sort_index_overflows:
  fixes x index :: "u64 list" and mn mx :: u64
  assumes len: "length index = length x" and big: "2 ^ 31 \<le> length x"
      and rng: "\<forall>h \<in> set x. mn \<le> h \<and> h \<le> mx"
      and fits: "unat (mx - mn) + 2 < 2 ^ 31"
      and alloc: "\<forall>var. (''mf_counting_sort_index'', var) \<notin> set failing"
  shows "mf_counting_sort_index failing x index (length x) mn mx = Inl Overflow"
proof -
  define R where "R = unat (mx - mn)"
  define S where "S = Suc R"
  define ks where "ks = map (\<lambda>h. unat (h - mn)) x"
  define N where "N = length x"
  have fits64: "unat (mx - mn) + 2 < 2 ^ 64" using fits by simp
  have u1: "unat (mx - mn + 1) = S"
    using fits64 by (simp add: unat_plus_1 S_def R_def)
  have u2: "unat (mx - mn + 1 + 1) = Suc S"
  proof -
    have "unat (mx - mn + 1) + 1 < 2 ^ 64" unfolding u1 using fits64 by (simp add: S_def R_def)
    from unat_plus_1 [OF this] show ?thesis unfolding u1 .
  qed
  have u2': "unat (2 + (mx - mn)) = Suc S"
    using u2 by (simp add: add.commute)
  have key: "unat (h - mn) \<le> R" if "h \<in> set x" for h
  proof -
    from that rng have a: "mn \<le> h" "h \<le> mx" by auto
    then have b: "mn \<le> mx" by simp
    show ?thesis using a b by (simp add: R_def unat_sub word_le_nat_alt)
  qed
  have keys1: "\<forall>h \<in> set x. unat (h + 1 - mn) = Suc (unat (h - mn)) \<and> unat (h - mn) < S"
  proof
    fix h assume h: "h \<in> set x"
    have e: "h + 1 - mn = h - mn + 1" by simp
    have "unat (h - mn) + 1 < 2 ^ 64" using key [OF h] fits64 by (simp add: R_def)
    then show "unat (h + 1 - mn) = Suc (unat (h - mn)) \<and> unat (h - mn) < S"
      unfolding e using key [OF h] by (simp add: unat_plus_1 S_def)
  qed
  have sm: "Suc S < 2 ^ 31" using fits by (simp add: S_def R_def)
  have a: "calloc failing ''mf_counting_sort_index'' ''xcopy'' N = Some (replicate N (0 :: u64))"
          "calloc failing ''mf_counting_sort_index'' ''icopy'' N = Some (replicate N (0 :: u64))"
          "calloc failing ''mf_counting_sort_index'' ''count'' (Suc S) = Some (replicate (Suc S) (0 :: cint))"
    using alloc by (simp_all add: calloc_succeeds)
  have z: "counting_sort_zero True (Suc S) (replicate (Suc S) (0 :: cint)) =
           Inr (0 # counted ks S 0)"
    using counting_sort_zero_run [of "Suc S" "Suc S" True] sm
    by (simp add: counted_0)
  have nb: "\<not> N < 2 ^ 31" using big by (simp add: N_def)
  have "counting_sort_freq False x index (2 ^ 31) mn
             (0 # counted ks S 0 :: cint list, replicate N 0, replicate N 0) =
           Inr (0 # counted ks S (2 ^ 31),
                map (\<lambda>h. h + 1 - mn) (take (2 ^ 31) x) @ replicate (N - 2 ^ 31) 0,
                take (2 ^ 31) index @ replicate (N - 2 ^ 31) 0)"
    unfolding ks_def N_def
    by (rule counting_sort_freq_run [OF len keys1 big]) simp
  then have f: "counting_sort_freq True x index N mn
             (0 # counted ks S 0 :: cint list, replicate N 0, replicate N 0) = Inl Overflow"
    unfolding counting_sort_freq_def for_c_def for_int_def
    by (simp only: if_not_P [OF nb] if_True if_False then_do_Inr)
  show ?thesis
    unfolding mf_counting_sort_index_def
    by (simp add: counting_sort_text_def Let_def u1 u2 u2' a [unfolded N_def] z f [unfolded N_def]
        del: replicate_Suc)
qed

lemma sorts_bounded_by_int:
  "mf_radix_sort_index_pass 8 [] (replicate 2147483648 0) (replicate 2147483648 0) 2147483648 1 2 =
     Inl Overflow"
  "mf_counting_sort_index [] (replicate 2147483648 0) (replicate 2147483648 0) 2147483648 0 0 =
     Inl Overflow"
  using mf_radix_sort_index_pass_overflows [of "replicate 2147483648 0" "replicate 2147483648 0" 1 2 8 "[]"]
    mf_counting_sort_index_overflows [of "replicate 2147483648 0" "replicate 2147483648 0" 0 0 "[]"]
  by simp_all


lemma pass_needs_small_shift:
  "mf_radix_sort_index_pass 8589934592 [] [] [] 0 1 2147483648 = Inl Overflow"
proof -
  have z: "for_int 0 2147483648 (\<lambda>i cnt. wr cnt i (0::cint)) (replicate 2147483648 0) = Inl Overflow"
    unfolding for_int_def using zero_loop_run [of 2147483648 2147483648, where ?'a = cint] by simp
  show ?thesis
    by (simp add: mf_radix_sort_index_pass_def z)
qed

lemma pass_needs_stack_and_divisors:
  "mf_radix_sort_index_pass 8388608 [] [5] [0] 1 1 16777216 = Inl StackOverflow"
  "mf_radix_sort_index_pass 8388608 [] [5] [0] 1 1 0 = Inl ZeroLengthArray"
  "mf_radix_sort_index_pass 8388608 [] [5] [0] 1 0 2 = Inl DivideByZero"
  by (simp_all add: mf_radix_sort_index_pass_def for_loop_unroll)

lemma counting_needs_bounds:
  "gf_counting_sort [] [5] [0] 1 0 1 = Inl OutOfBounds"
  "gf_counting_sort [] [0] [0] 1 0 18446744073709551615 = Inl OutOfBounds"
  by (simp_all add: gf_counting_sort_def counting_sort_text_def counting_sort_zero_def
      counting_sort_freq_def for_c_def for_loop_unroll)

lemma counting_needs_small_range:
  "mf_counting_sort_index [] [0] [0] 1 0 2147483646 = Inl Overflow"
proof -
  have z: "for_int 0 2147483648 (\<lambda>i cnt. wr cnt i (0::cint)) (replicate 2147483648 0) = Inl Overflow"
    unfolding for_int_def using zero_loop_run [of 2147483648 2147483648, where ?'a = cint] by simp
  show ?thesis
    by (simp add: mf_counting_sort_index_def counting_sort_text_def counting_sort_zero_def for_c_def z)
qed

section \<open>Every sort is stable within its counters\<close>




section \<open>Agreement of the sorts\<close>

lemma counting_sort_wide:
  "gf_counting_sort [] (replicate 4294967297 0) (replicate 4294967297 7) 4294967297 0 0 =
     Inr (RC_OK, replicate 4294967297 0, replicate 4294967297 7)"
proof -
  let ?H = "replicate 4294967297 (0 :: u64)"
  let ?I = "replicate 4294967297 (7 :: u64)"
  have "sort_key (\<lambda>z. unat (fst z)) (zip ?H ?I) = sort_key (\<lambda>z. 0 :: nat) (zip ?H ?I)"
  proof (rule sort_key_cong_order)
    fix a b assume "a \<in> set (zip ?H ?I)" "b \<in> set (zip ?H ?I)"
    then have "fst a = 0" "fst b = 0"
      using set_zip_leftD [of "fst a" "snd a" ?H ?I] set_zip_leftD [of "fst b" "snd b" ?H ?I]
      by simp_all
    then show "unat (fst a) \<le> unat (fst b) \<longleftrightarrow> (0 :: nat) \<le> 0" by simp
  qed
  then have s: "sort_key (\<lambda>z. unat (fst z)) (zip ?H ?I) = zip ?H ?I"
    by (simp only: sort_key_const)
  have "gf_counting_sort [] ?H ?I (length ?H) 0 0 =
          Inr (RC_OK, map fst (sort_key (\<lambda>z. unat (fst z)) (zip ?H ?I)),
                      map snd (sort_key (\<lambda>z. unat (fst z)) (zip ?H ?I)))"
    by (rule gf_counting_sort_sorts) simp_all
  then show ?thesis
    unfolding s by simp
qed

lemma radix_sort16_small:
  "gf_radix_sort16 failing [5] [0] 1 = Inr (RC_OK, [5], [0])"
  "gf_radix_sort16 failing [2, 1] [0, 1] 2 = Inr (RC_OK, [1, 2], [1, 0])"
  if "\<forall>var. (''gf_radix_sort16'', var) \<notin> set failing"
proof -
  have e: "Suc (Suc 0) = 2" by simp
  show "gf_radix_sort16 failing [5] [0] 1 = Inr (RC_OK, [5], [0])"
    using gf_radix_sort16_sorts [of "[0]" "[5]" failing] that by simp
  show "gf_radix_sort16 failing [2, 1] [0, 1] 2 = Inr (RC_OK, [1, 2], [1, 0])"
    using gf_radix_sort16_sorts [of "[0, 1]" "[2, 1]" failing] that by (simp add: e)
qed




section \<open>The radix path of the dispatcher\<close>

lemma copy_loop_run:
  fixes hash0 index :: "u64 list"
  assumes len: "length index = length hash0" and n: "n \<le> length hash0"
  shows "for_loop 0 n (\<lambda>i (copy_hash, copy_index).
                 if copy_hash = None \<or> copy_index = None then Inl NullPointer
                 else
                   then_do (rd hash0 i) (\<lambda>h.
                   then_do (wr (the copy_hash) i h) (\<lambda>ch.
                   then_do (rd index i) (\<lambda>ix.
                   then_do (wr (the copy_index) i ix) (\<lambda>ci.
                   Inr (Some ch, Some ci))))))
           (Some (replicate (length hash0) 0), Some (replicate (length hash0) 0)) =
         Inr (Some (take n hash0 @ replicate (length hash0 - n) 0),
              Some (take n index @ replicate (length hash0 - n) 0))"
  using n
proof (induction n)
  case 0
  then show ?case by simp
next
  case (Suc n)
  then have n: "n < length hash0" by simp
  have w1: "wr (take n hash0 @ replicate (length hash0 - n) 0) n (hash0 ! n) =
            Inr (take (Suc n) hash0 @ replicate (length hash0 - Suc n) 0)"
    using n by (simp add: append_replicate_update take_Suc_conv_app_nth)
  have w2: "wr (take n index @ replicate (length hash0 - n) 0) n (index ! n) =
            Inr (take (Suc n) index @ replicate (length hash0 - Suc n) 0)"
    using n len by (simp add: append_replicate_update take_Suc_conv_app_nth)
  have r1: "rd hash0 n = Inr (hash0 ! n)" using n by simp
  have r2: "rd index n = Inr (index ! n)" using n len by simp
  show ?case
    unfolding for_loop_Suc [OF le0] Suc.IH [OF less_imp_le [OF n]]
    by (simp only: then_do_Inr prod.case option.simps option.sel simp_thms if_False r1 r2 w1 w2)
qed

lemma sort_hash_after_copy:
  fixes H I :: "u64 list" and mn mx :: u64
  assumes len: "length I = length H"
      and mn: "mf_min H (length H) = Inr mn" and mx: "mf_max H (length H) = Inr mx"
      and big: "\<not> mx - mn + 1 < 2 ^ 24"
      and copies: "(''gf_sort_hash'', ''copy_hash'') \<notin> set failing"
                  "(''gf_sort_hash'', ''copy_index'') \<notin> set failing"
  shows "gf_sort_hash failing H I (length H) =
           then_do (gf_radix_psort16 failing H I (length H)) (\<lambda>(rc, sorted_copy, sorted_copy_index).
             if rc \<noteq> RC_OK then Inr (rc, H, I) else gf_radix_sort16 failing H I (length H))"
proof -
  have a: "calloc failing ''gf_sort_hash'' ''copy_hash'' (length H) = Some (replicate (length H) (0 :: u64))"
          "calloc failing ''gf_sort_hash'' ''copy_index'' (length H) = Some (replicate (length H) (0 :: u64))"
    using copies by (simp_all add: calloc_succeeds)
  have c: "for_loop 0 (length H) (\<lambda>i (copy_hash, copy_index).
                 if copy_hash = None \<or> copy_index = None then Inl NullPointer
                 else
                   then_do (rd H i) (\<lambda>h.
                   then_do (wr (the copy_hash) i h) (\<lambda>ch.
                   then_do (rd I i) (\<lambda>ix.
                   then_do (wr (the copy_index) i ix) (\<lambda>ci.
                   Inr (Some ch, Some ci))))))
           (Some (replicate (length H) 0), Some (replicate (length H) 0)) =
         Inr (Some H, Some I)"
    using copy_loop_run [OF len le_refl] len by simp
  show ?thesis
    unfolding gf_sort_hash_def Let_def mn mx a
    using big
    by (simp only: then_do_Inr c prod.case option.simps if_False simp_thms)
qed

lemma psort16_two_rows:
  "gf_radix_psort16 [] [1099511627776, 1] [0, 1] 2 = Inr (RC_OK, [1, 1099511627776], [1, 0])"
proof -
  have e: "Suc (Suc 0) = 2" by simp
  show ?thesis
    using gf_radix_psort16_sorts [of "[0, 1]" "[1099511627776, 1]" "[]"]
    by (simp add: e)
qed

lemma sort16_two_rows:
  "gf_radix_sort16 failing [1099511627776, 1] [0, 1] 2 = Inr (RC_OK, [1, 1099511627776], [1, 0])"
  if "\<forall>var. (''gf_radix_sort16'', var) \<notin> set failing"
proof -
  have e: "Suc (Suc 0) = 2" by simp
  show ?thesis
    using gf_radix_sort16_sorts [of "[0, 1]" "[1099511627776, 1]" failing] that
    by (simp add: e)
qed

lemma sort_hash_private_failure:
  "gf_sort_hash [(''gf_radix_psort16'', ''hcopy'')] [1099511627776, 1] [0, 1] 2 =
     Inr (RC_OOM ''radixSort'' ''hcopy'', [1099511627776, 1], [0, 1])"
proof -
  have e: "length [1099511627776 :: u64, 1] = 2" by simp
  have p: "gf_radix_psort16 [(''gf_radix_psort16'', ''hcopy'')] [1099511627776, 1] [0, 1] 2 =
     Inr (RC_OOM ''radixSort'' ''hcopy'', [1099511627776, 1], [0, 1])"
    by (rule checked_allocations) simp
  have "gf_sort_hash [(''gf_radix_psort16'', ''hcopy'')] [1099511627776, 1] [0, 1]
          (length [1099511627776 :: u64, 1]) =
        then_do (gf_radix_psort16 [(''gf_radix_psort16'', ''hcopy'')] [1099511627776, 1] [0, 1]
                   (length [1099511627776 :: u64, 1]))
          (\<lambda>(rc, sorted_copy, sorted_copy_index).
             if rc \<noteq> RC_OK then Inr (rc, [1099511627776, 1], [0, 1])
             else gf_radix_sort16 [(''gf_radix_psort16'', ''hcopy'')] [1099511627776, 1] [0, 1]
                    (length [1099511627776 :: u64, 1]))"
    by (rule sort_hash_after_copy [where mn = 1 and mx = 1099511627776])
       (simp_all add: numeral_2_eq_2 [symmetric] mf_min_2 mf_max_2)
  then show ?thesis
    unfolding e p by simp
qed

text \<open>
  C9 as stated fails. \<open>gf_sort_hash\<close> looks at the return code of the parallel sort and
  returns it at once when it is not 0: with \<open>hcopy\<close> of \<open>gf_radix_psort16\<close> not allocated,
  the caller's arrays come back as they were, where \<open>gf_radix_sort16\<close> on the same run
  sorts them. And when \<open>copy_hash\<close> or \<open>copy_index\<close> is not allocated the copying loop
  stores through \<open>NULL\<close>.
\<close>

theorem sort_hash_radix_path_counterexample:
  "gf_sort_hash [(''gf_radix_psort16'', ''hcopy'')] [1099511627776, 1] [0, 1] 2 =
     Inr (RC_OOM ''radixSort'' ''hcopy'', [1099511627776, 1], [0, 1]) \<and>
   gf_radix_sort16 [(''gf_radix_psort16'', ''hcopy'')] [1099511627776, 1] [0, 1] 2 =
     Inr (RC_OK, [1, 1099511627776], [1, 0]) \<and>
   gf_sort_hash [(''gf_sort_hash'', ''copy_hash'')] [1099511627776, 1] [0, 1] 2 = Inl NullPointer \<and>
   gf_radix_sort16 [(''gf_sort_hash'', ''copy_hash'')] [1099511627776, 1] [0, 1] 2 =
     Inr (RC_OK, [1, 1099511627776], [1, 0]) \<and>
   gf_sort_hash [(''gf_sort_hash'', ''copy_index'')] [1099511627776, 1] [0, 1] 2 = Inl NullPointer \<and>
   gf_radix_sort16 [(''gf_sort_hash'', ''copy_index'')] [1099511627776, 1] [0, 1] 2 =
     Inr (RC_OK, [1, 1099511627776], [1, 0])"
proof -
  have s: "gf_radix_sort16 [(''gf_radix_psort16'', ''hcopy'')] [1099511627776, 1] [0, 1] 2 =
     Inr (RC_OK, [1, 1099511627776], [1, 0])"
    "gf_radix_sort16 [(''gf_sort_hash'', ''copy_hash'')] [1099511627776, 1] [0, 1] 2 =
     Inr (RC_OK, [1, 1099511627776], [1, 0])"
    "gf_radix_sort16 [(''gf_sort_hash'', ''copy_index'')] [1099511627776, 1] [0, 1] 2 =
     Inr (RC_OK, [1, 1099511627776], [1, 0])"
    by (rule sort16_two_rows; simp)+
  have u: "gf_sort_hash [(''gf_sort_hash'', ''copy_hash'')] [1099511627776, 1] [0, 1] 2 =
     Inl NullPointer"
    using unchecked_copy by simp
  have v: "gf_sort_hash [(''gf_sort_hash'', ''copy_index'')] [1099511627776, 1] [0, 1] 2 =
     Inl NullPointer"
    by (simp add: gf_sort_hash_def mf_min_2 mf_max_2 calloc_def for_loop_unroll)
  show ?thesis
    by (simp only: sort_hash_private_failure u v s simp_thms)
qed

text \<open>
  C9 amended. On the radix path of \<open>gf_sort_hash\<close> (the range of the keys is at least
  \<open>2^24\<close>), with the two private copies allocated: when \<open>gf_radix_psort16\<close> returns 0 on the
  copies, the call returns exactly what the single-threaded \<open>gf_radix_sort16\<close> returns on
  the caller's arrays, whatever the parallel sort left in the copies; when
  \<open>gf_radix_psort16\<close> returns another code, the call returns that code with the caller's
  arrays as they were.
\<close>

theorem sort_hash_radix_path:
  fixes H I :: "u64 list" and mn mx :: u64
  assumes len: "length I = length H"
      and mn: "mf_min H (length H) = Inr mn" and mx: "mf_max H (length H) = Inr mx"
      and big: "\<not> mx - mn + 1 < 2 ^ 24"
      and copies: "(''gf_sort_hash'', ''copy_hash'') \<notin> set failing"
                  "(''gf_sort_hash'', ''copy_index'') \<notin> set failing"
  shows "(gf_radix_psort16 failing H I (length H) = Inr (RC_OK, Hp, Ip) \<longrightarrow>
            gf_sort_hash failing H I (length H) = gf_radix_sort16 failing H I (length H)) \<and>
         (gf_radix_psort16 failing H I (length H) = Inr (rc, Hp, Ip) \<and> rc \<noteq> RC_OK \<longrightarrow>
            gf_sort_hash failing H I (length H) = Inr (rc, H, I))"
  unfolding sort_hash_after_copy [OF assms] by simp

theorem sort_hash_radix_path_witness:
  "gf_sort_hash [] [1099511627776, 1] [0, 1] 2 = gf_radix_sort16 [] [1099511627776, 1] [0, 1] 2 \<and>
   gf_sort_hash [(''gf_radix_psort16'', ''ixcopy'')] [1099511627776, 1] [0, 1] 2 =
     Inr (RC_OOM ''radixSort'' ''ixcopy'', [1099511627776, 1], [0, 1])"
proof -
  have e: "length [1099511627776 :: u64, 1] = 2" by simp
  have p: "gf_radix_psort16 [(''gf_radix_psort16'', ''ixcopy'')] [1099511627776, 1] [0, 1] 2 =
     Inr (RC_OOM ''radixSort'' ''ixcopy'', [1099511627776, 1], [0, 1])"
    by (simp add: gf_radix_psort16_def calloc_def)
  have h: "length [0 :: u64, 1] = length [1099511627776 :: u64, 1]"
    "mf_min [1099511627776, 1] (length [1099511627776 :: u64, 1]) = Inr 1"
    "mf_max [1099511627776, 1] (length [1099511627776 :: u64, 1]) = Inr 1099511627776"
    "\<not> (1099511627776 :: u64) - 1 + 1 < 2 ^ 24"
    by (simp_all add: numeral_2_eq_2 [symmetric] mf_min_2 mf_max_2)
  have a: "gf_sort_hash [] [1099511627776, 1] [0, 1] 2 =
           gf_radix_sort16 [] [1099511627776, 1] [0, 1] 2"
    using sort_hash_radix_path [OF h, of "[]" "[1, 1099511627776]" "[1, 0]" RC_OK]
      psort16_two_rows
    unfolding e by simp
  have b: "gf_sort_hash [(''gf_radix_psort16'', ''ixcopy'')] [1099511627776, 1] [0, 1] 2 =
     Inr (RC_OOM ''radixSort'' ''ixcopy'', [1099511627776, 1], [0, 1])"
    using sort_hash_radix_path [OF h, of "[(''gf_radix_psort16'', ''ixcopy'')]"
        "[1099511627776, 1]" "[0, 1]" "RC_OOM ''radixSort'' ''ixcopy''"] p
    unfolding e by simp
  from a b show ?thesis by (rule conjI)
qed

section \<open>The radix sort with an index\<close>

lemma mf_min_loop:
  fixes x :: "u64 list"
  shows "Suc k \<le> length x \<Longrightarrow>
   for_loop 1 (Suc k) (\<lambda>i m. then_do (rd x i) (\<lambda>xi. Inr (if m > xi then xi else m))) (x ! 0) =
     Inr (Min (set (take (Suc k) x)))"
proof (induction k)
  case 0
  then show ?case by (cases x) simp_all
next
  case (Suc k)
  let ?B = "\<lambda>i m. then_do (rd x i) (\<lambda>xi. Inr (if m > xi then xi else m))"
  let ?A = "set (take (Suc k) x)"
  from Suc.prems have lt: "Suc k < length x" by simp
  have ne: "?A \<noteq> {}" and fin: "finite ?A"
    using lt by auto
  have ins: "Min (insert h ?A) = min h (Min ?A)" for h
    by (rule Min_insert [OF fin ne])
  have sl: "set (take (Suc (Suc k)) x) = insert (x ! Suc k) ?A"
    using lt by (simp add: take_Suc_conv_app_nth [of "Suc k"])
  have "for_loop 1 (Suc (Suc k)) ?B (x ! 0) =
        then_do (for_loop 1 (Suc k) ?B (x ! 0)) (?B (Suc k))"
    by (rule for_loop_Suc) simp
  also have "\<dots> = then_do (Inr (Min ?A)) (?B (Suc k))"
    using Suc.IH lt by simp
  also have "\<dots> = Inr (min (x ! Suc k) (Min ?A))"
    using lt by (auto simp: min_def)
  finally show ?case
    by (simp only: sl ins)
qed

lemma mf_max_loop:
  fixes x :: "u64 list"
  shows "Suc k \<le> length x \<Longrightarrow>
   for_loop 1 (Suc k) (\<lambda>i m. then_do (rd x i) (\<lambda>xi. Inr (if m < xi then xi else m))) (x ! 0) =
     Inr (Max (set (take (Suc k) x)))"
proof (induction k)
  case 0
  then show ?case by (cases x) simp_all
next
  case (Suc k)
  let ?B = "\<lambda>i m. then_do (rd x i) (\<lambda>xi. Inr (if m < xi then xi else m))"
  let ?A = "set (take (Suc k) x)"
  from Suc.prems have lt: "Suc k < length x" by simp
  have ne: "?A \<noteq> {}" and fin: "finite ?A"
    using lt by auto
  have ins: "Max (insert h ?A) = max h (Max ?A)" for h
    by (rule Max_insert [OF fin ne])
  have sl: "set (take (Suc (Suc k)) x) = insert (x ! Suc k) ?A"
    using lt by (simp add: take_Suc_conv_app_nth [of "Suc k"])
  have "for_loop 1 (Suc (Suc k)) ?B (x ! 0) =
        then_do (for_loop 1 (Suc k) ?B (x ! 0)) (?B (Suc k))"
    by (rule for_loop_Suc) simp
  also have "\<dots> = then_do (Inr (Max ?A)) (?B (Suc k))"
    using Suc.IH lt by simp
  also have "\<dots> = Inr (max (x ! Suc k) (Max ?A))"
    using lt by (auto simp: max_def)
  finally show ?case
    by (simp only: sl ins)
qed

lemma mf_min_max_eq:
  fixes x :: "u64 list"
  assumes "0 < length x"
  shows "mf_min x (length x) = Inr (Min (set x))" "mf_max x (length x) = Inr (Max (set x))"
proof -
  obtain k where k: "length x = Suc k" using assms by (cases "length x") simp_all
  have r: "rd x 0 = Inr (x ! 0)" using assms by simp
  show "mf_min x (length x) = Inr (Min (set x))"
    unfolding mf_min_def r k using mf_min_loop [of k x] k by simp
  show "mf_max x (length x) = Inr (Max (set x))"
    unfolding mf_max_def r k using mf_max_loop [of k x] k by simp
qed

lemma pass_two_rows:
  fixes a b exp0 shift :: u64
  assumes "exp0 \<noteq> 0" "shift \<noteq> 0" "unat shift < 2 ^ 31" "4 * unat shift \<le> stack"
      and "(unat a div unat exp0) mod unat shift \<le> (unat b div unat exp0) mod unat shift"
  shows "mf_radix_sort_index_pass stack [] [a, b] [0, 1] 2 exp0 shift = Inr (RC_OK, [a, b], [0, 1])"
proof -
  have e: "Suc (Suc 0) = 2" by simp
  show ?thesis
    using mf_radix_sort_index_pass_sorts [of "[0, 1]" "[a, b]" exp0 shift stack "[]"] assms
    by (simp add: e)
qed

lemma pass_16_first:
  "mf_radix_sort_index_pass 8388608 [] [4294967296, 1] [0, 1] 2 1 65536 =
     Inr (RC_OK, [4294967296, 1], [0, 1])"
  by (rule pass_two_rows) simp_all

lemma pass_16_second:
  "mf_radix_sort_index_pass 8388608 [] [4294967296, 1] [0, 1] 2 65536 65536 =
     Inr (RC_OK, [4294967296, 1], [0, 1])"
  by (rule pass_two_rows) simp_all

lemma two_rows_identity:
  "mf_index_fill 2 [a, b :: u64] = Inr [0, 1]"
  by (simp add: mf_index_fill_def for_loop_unroll)

lemma radix_16:
  "mf_radix_sort_index 8388608 rawloops [] [4294967296, 1] [0, 1] 2 16 0 =
     Inr (RC_OK, [4294967296, 1], [0, 1])"
  by (simp add: mf_radix_sort_index_def mf_min_2 mf_max_2 two_rows_identity Let_def
      pass_16_first pass_16_second)

lemma pass_8:
  "mf_radix_sort_index_pass 8388608 [] [16777216, 1] [0, 1] 2 1 256 = Inr (RC_OK, [16777216, 1], [0, 1])"
  "mf_radix_sort_index_pass 8388608 [] [16777216, 1] [0, 1] 2 256 256 = Inr (RC_OK, [16777216, 1], [0, 1])"
  "mf_radix_sort_index_pass 8388608 [] [16777216, 1] [0, 1] 2 65536 256 = Inr (RC_OK, [16777216, 1], [0, 1])"
  by (rule pass_two_rows; simp)+

lemma radix_8:
  "mf_radix_sort_index 8388608 rawloops [] [16777216, 1] [0, 1] 2 8 0 =
     Inr (RC_OK, [16777216, 1], [0, 1])"
  by (simp add: mf_radix_sort_index_def mf_min_2 mf_max_2 two_rows_identity Let_def pass_8)

lemma pass_24:
  "mf_radix_sort_index_pass 67108864 [] [16777216, 1] [0, 1] 2 1 16777216 =
     Inr (RC_OK, [16777216, 1], [0, 1])"
  by (rule pass_two_rows) simp_all

lemma radix_24:
  "mf_radix_sort_index 67108864 rawloops [] [16777216, 1] [0, 1] 2 24 0 =
     Inr (RC_OK, [16777216, 1], [0, 1])"
  by (simp add: mf_radix_sort_index_def mf_min_2 mf_max_2 two_rows_identity Let_def pass_24)

lemma pass_24_small_stack:
  "mf_radix_sort_index_pass 8388608 [] [16777216, 1] [0, 1] 2 1 16777216 = Inl StackOverflow"
  by (simp add: mf_radix_sort_index_pass_def Let_def)

lemma radix_24_small_stack:
  "mf_radix_sort_index 8388608 rawloops [] [16777216, 1] [0, 1] 2 24 0 = Inl StackOverflow"
  by (simp add: mf_radix_sort_index_def mf_min_2 mf_max_2 two_rows_identity Let_def
      pass_24_small_stack)

lemma radix_sort16_two_rows:
  "gf_radix_sort16 [] [4294967296, 1] [0, 1] 2 = Inr (RC_OK, [1, 4294967296], [1, 0])"
proof -
  have e: "Suc (Suc 0) = 2" by simp
  show ?thesis
    using gf_radix_sort16_sorts [of "[0, 1]" "[4294967296, 1]" "[]"]
    by (simp add: e)
qed

text \<open>
  C1 (the code departs from the claim). The loop of \<open>mf_radix_sort_index\<close> goes on while
  \<open>max > exp\<close>, so it stops before the pass that would sort the highest digit whenever the
  largest key is exactly the next power of the shift. With 16 bits at a time and the keys
  \<open>[2^32, 1]\<close>, and with 8 or 24 bits at a time and the keys \<open>[2^24, 1]\<close>, the call returns
  0 with the keys as they were, the larger one first. The stack is 8 MiB for 16 and 8 bits;
  with 24 bits the array \<open>int count[shift]\<close> of a pass takes 64 MiB, so the run is shown
  with exactly that much stack, and with 8 MiB it ends in a stack overflow: the keys are
  not sorted either way.
\<close>

theorem radix_sort_index_stops_early:
  "mf_radix_sort_index 8388608 rawloops [] [4294967296, 1] [0, 1] 2 16 0 =
     Inr (RC_OK, [4294967296, 1], [0, 1]) \<and>
   mf_radix_sort_index 8388608 rawloops [] [16777216, 1] [0, 1] 2 8 0 =
     Inr (RC_OK, [16777216, 1], [0, 1]) \<and>
   mf_radix_sort_index 67108864 rawloops [] [16777216, 1] [0, 1] 2 24 0 =
     Inr (RC_OK, [16777216, 1], [0, 1]) \<and>
   mf_radix_sort_index 8388608 rawloops [] [16777216, 1] [0, 1] 2 24 0 = Inl StackOverflow"
  by (simp only: radix_16 radix_8 radix_24 radix_24_small_stack simp_thms)

section \<open>The index a sort starts from\<close>

lemma mf_min_max_replicate:
  "0 < n \<Longrightarrow> mf_min (replicate n (h :: u64)) n = Inr h"
  "0 < n \<Longrightarrow> mf_max (replicate n (h :: u64)) n = Inr h"
  using mf_min_max_eq [of "replicate n h"] by simp_all

lemma range_below:
  fixes mn mx :: u64
  assumes "mn \<le> mx" "unat mx - unat mn + 1 < 2 ^ 24"
  shows "mx - mn + 1 < 2 ^ 24" "unat (mx - mn) + 2 < 2 ^ 31"
proof -
  have a: "unat (mx - mn) = unat mx - unat mn"
    using assms(1) by (simp add: unat_sub)
  have b: "unat (mx - mn + 1) = unat mx - unat mn + 1"
    using assms(2) a by (simp add: unat_word_ariths)
  show "mx - mn + 1 < 2 ^ 24"
    using b assms(2) by (simp add: word_less_nat_alt)
  show "unat (mx - mn) + 2 < 2 ^ 31"
    using a assms(2) by simp
qed

lemma radix_sort_index_filled:
  assumes "mf_index_fill N index1 = Inr ident" "mf_index_fill N index2 = Inr ident"
  shows "mf_radix_sort_index stack rawloops failing x index1 N dshift raw =
         mf_radix_sort_index stack rawloops failing x index2 N dshift raw"
  by (simp only: mf_radix_sort_index_def assms)

lemma radix_sort_index_counting:
  fixes x :: "u64 list"
  assumes fill: "mf_index_fill (length x) index = Inr ident" and li: "length ident = length x"
      and ne: "0 < length x" and N: "length x < 2 ^ 31"
      and small: "unat (Max (set x)) - unat (Min (set x)) + 1 < 2 ^ 24"
      and sh: "raw = 0 \<longrightarrow> 0 < dshift \<and> dshift < 64"
              "raw \<noteq> 0 \<longrightarrow> rawloops (Max (set x)) dshift = Inr loops"
      and alloc: "\<forall>var. (''mf_counting_sort_index'', var) \<notin> set failing"
  shows "mf_radix_sort_index stack rawloops failing x index (length x) dshift raw =
           Inr (RC_OK, map fst (sort_key (\<lambda>z. unat (fst z)) (zip x ident)),
                       map snd (sort_key (\<lambda>z. unat (fst z)) (zip x ident)))"
proof -
  define mn where "mn = Min (set x)"
  define mx where "mx = Max (set x)"
  have xs: "x \<noteq> []" using ne by auto
  have rng: "\<forall>h \<in> set x. mn \<le> h \<and> h \<le> mx"
    by (simp add: mn_def mx_def)
  have le: "mn \<le> mx"
    using rng xs by (cases x) auto
  note rb = range_below [OF le small [folded mn_def mx_def]]
  have m: "mf_min x (length x) = Inr mn" "mf_max x (length x) = Inr mx"
    using mf_min_max_eq [OF ne] by (simp_all add: mn_def mx_def)
  have srt: "mf_counting_sort_index failing x ident (length x) mn mx =
           Inr (RC_OK, map fst (sort_key (\<lambda>z. unat (fst z)) (zip x ident)),
                       map snd (sort_key (\<lambda>z. unat (fst z)) (zip x ident)))"
    by (rule mf_counting_sort_index_sorts [OF li N alloc rng rb(2)])
  show ?thesis
  proof (cases "raw = 0")
    case True
    then show ?thesis
      using sh(1) rb(1) by (simp add: mf_radix_sort_index_def m fill srt Let_def)
  next
    case False
    then show ?thesis
      using sh(2) rb(1) by (simp add: mf_radix_sort_index_def m fill srt Let_def mx_def [symmetric])
  qed
qed

lemma radix_sort_index_run:
  fixes x :: "u64 list"
  assumes fill: "mf_index_fill (length x) index = Inr ident"
      and ne: "0 < length x"
      and sh: "raw = 0 \<longrightarrow> 0 < dshift \<and> dshift < 64 \<and> shift = 2 ^ dshift \<and> loops = 64 div dshift - 1"
              "raw \<noteq> 0 \<longrightarrow> rawloops (Max (set x)) dshift = Inr loops \<and> shift = of_nat dshift"
  shows "mf_radix_sort_index stack rawloops failing x index (length x) dshift raw =
           (if Max (set x) - Min (set x) + 1 < 2 ^ 24
            then mf_counting_sort_index failing x ident (length x) (Min (set x)) (Max (set x))
            else mf_radix_sort_index_do stack failing (length x) (Max (set x)) shift loops x ident 1 0)"
proof (cases "raw = 0")
  case True
  then show ?thesis
    using sh(1) by (simp add: mf_radix_sort_index_def mf_min_max_eq [OF ne] fill Let_def)
next
  case False
  then show ?thesis
    using sh(2) by (simp add: mf_radix_sort_index_def mf_min_max_eq [OF ne] fill Let_def)
qed

text \<open>
  C10 (the claim fails where the routine faults before the index is filled, or while it is).
  The loop that fills the index counts in an \<open>int\<close>: with \<open>2^31\<close> rows the counter overflows
  after the last entry is written, and nothing is sorted. Before the index is touched,
  \<open>mf_max\<close> (a scan that starts from \<open>x[0]\<close>) reads an element that no array of zero
  rows has; the number of passes is
  \<open>64 / dshift - 1\<close>, which divides by zero when \<open>dshift\<close> is 0; and the shift
  \<open>pow(2, dshift)\<close> does not fit a \<open>size_t\<close> when \<open>dshift\<close> is 64. In these runs the index
  still holds what the caller put there when the fault occurs.
\<close>

theorem index_overwritten_counterexample:
  "mf_index_fill 2147483648 (replicate 2147483648 0) = Inl Overflow \<and>
   mf_radix_sort_index 8388608 (\<lambda>m d. Inr 0) [] (replicate 2147483648 0) (replicate 2147483648 0)
     2147483648 16 0 = Inl Overflow \<and>
   mf_radix_sort_index 8388608 (\<lambda>m d. Inr 0) [] [] [] 0 16 0 = Inl OutOfBounds \<and>
   mf_radix_sort_index 8388608 (\<lambda>m d. Inr 0) [] [2, 1] [5, 5] 2 0 0 = Inl DivideByZero \<and>
   mf_radix_sort_index 8388608 (\<lambda>m d. Inr 0) [] [2, 1] [5, 5] 2 64 0 = Inl Overflow"
proof -
  have f: "mf_index_fill 2147483648 (replicate 2147483648 (0 :: u64)) = Inl Overflow"
    using index_identity [of "replicate 2147483648 (0 :: u64)" 2147483648] by simp
  have m: "mf_min (replicate 2147483648 (0 :: u64)) 2147483648 = Inr 0"
          "mf_max (replicate 2147483648 (0 :: u64)) 2147483648 = Inr 0"
    by (rule mf_min_max_replicate, simp)+
  have a: "mf_radix_sort_index 8388608 (\<lambda>m d. Inr 0) [] (replicate 2147483648 0)
     (replicate 2147483648 0) 2147483648 16 0 = Inl Overflow"
    by (simp add: mf_radix_sort_index_def m f Let_def)
  have e: "mf_radix_sort_index 8388608 (\<lambda>m d. Inr 0) [] [] [] 0 16 0 = Inl OutOfBounds"
    by (simp add: mf_radix_sort_index_def mf_max_def)
  have b: "mf_radix_sort_index 8388608 (\<lambda>m d. Inr 0) [] [2, 1] [5, 5] 2 0 0 = Inl DivideByZero"
    by (simp add: mf_radix_sort_index_def mf_min_2 mf_max_2 Let_def)
  have c: "mf_radix_sort_index 8388608 (\<lambda>m d. Inr 0) [] [2, 1] [5, 5] 2 64 0 = Inl Overflow"
    by (simp add: mf_radix_sort_index_def mf_min_2 mf_max_2 Let_def)
  show ?thesis
    by (simp only: f a e b c simp_thms)
qed

text \<open>
  C10 (as amended). Take \<open>N\<close> rows, with \<open>0 < N < 2^31\<close>, and a shift that can be computed:
  a \<open>dshift\<close> from 1 to 63, or with \<open>raw\<close> the caller's base and the pass count its
  logarithm gives. The loop writes the identity \<open>0, 1, \<dots>, N - 1\<close> over the \<open>N\<close> entries of
  the index, whatever they held, and the outcome of the call is the outcome of the counting
  sort, or of the radix passes, started on the keys as given and on the identity. So the
  call runs as it runs on the identity, and two calls on the same keys that differ only in
  what the index held have the same outcome. On the counting path (keys whose range is
  below \<open>2^24\<close>, no allocation failing) the call returns 0 with the keys sorted and the
  index holding the stable sorting permutation of the identity.
\<close>

theorem index_overwritten:
  fixes x index1 index2 :: "u64 list"
  assumes len: "length index1 = N" "length index2 = N" "length x = N"
      and N: "0 < N" "N < 2 ^ 31"
      and sh: "raw = 0 \<longrightarrow> 0 < dshift \<and> dshift < 64 \<and> shift = 2 ^ dshift \<and> loops = 64 div dshift - 1"
              "raw \<noteq> 0 \<longrightarrow> rawloops (Max (set x)) dshift = Inr loops \<and> shift = of_nat dshift"
  shows "mf_index_fill N index1 = Inr (map of_nat [0..<N]) \<and>
         mf_radix_sort_index stack rawloops failing x index1 N dshift raw =
           (if Max (set x) - Min (set x) + 1 < 2 ^ 24
            then mf_counting_sort_index failing x (map of_nat [0..<N]) N (Min (set x)) (Max (set x))
            else mf_radix_sort_index_do stack failing N (Max (set x)) shift loops x
                   (map of_nat [0..<N]) 1 0) \<and>
         mf_radix_sort_index stack rawloops failing x index1 N dshift raw =
           mf_radix_sort_index stack rawloops failing x (map of_nat [0..<N]) N dshift raw \<and>
         mf_radix_sort_index stack rawloops failing x index1 N dshift raw =
           mf_radix_sort_index stack rawloops failing x index2 N dshift raw \<and>
         (unat (Max (set x)) - unat (Min (set x)) + 1 < 2 ^ 24 \<and>
          (\<forall>var. (''mf_counting_sort_index'', var) \<notin> set failing) \<longrightarrow>
            mf_radix_sort_index stack rawloops failing x index1 N dshift raw =
              Inr (RC_OK,
                   map fst (sort_key (\<lambda>z. unat (fst z)) (zip x (map of_nat [0..<N] :: u64 list))),
                   map snd (sort_key (\<lambda>z. unat (fst z)) (zip x (map of_nat [0..<N] :: u64 list)))))"
proof -
  let ?ident = "map of_nat [0..<N] :: u64 list"
  have f1: "mf_index_fill N index1 = Inr ?ident"
    using index_identity [OF len(1)] N by simp
  have f2: "mf_index_fill N index2 = Inr ?ident"
    using index_identity [OF len(2)] N by simp
  have f3: "mf_index_fill N ?ident = Inr ?ident"
    using index_identity [of ?ident N] N by simp
  have a: "mf_radix_sort_index stack rawloops failing x index1 N dshift raw =
           mf_radix_sort_index stack rawloops failing x ?ident N dshift raw"
    by (rule radix_sort_index_filled [OF f1 f3])
  have b: "mf_radix_sort_index stack rawloops failing x index1 N dshift raw =
           mf_radix_sort_index stack rawloops failing x index2 N dshift raw"
    by (rule radix_sort_index_filled [OF f1 f2])
  have li: "length ?ident = length x" using len(3) by simp
  have c: "mf_radix_sort_index stack rawloops failing x index1 N dshift raw =
              Inr (RC_OK,
                   map fst (sort_key (\<lambda>z. unat (fst z)) (zip x ?ident)),
                   map snd (sort_key (\<lambda>z. unat (fst z)) (zip x ?ident)))"
    if h: "unat (Max (set x)) - unat (Min (set x)) + 1 < 2 ^ 24"
          "\<forall>var. (''mf_counting_sort_index'', var) \<notin> set failing"
    using radix_sort_index_counting [of x index1 ?ident raw dshift rawloops loops failing stack]
      f1 li h N len(3) sh by simp
  have d: "mf_radix_sort_index stack rawloops failing x index1 N dshift raw =
              (if Max (set x) - Min (set x) + 1 < 2 ^ 24
               then mf_counting_sort_index failing x ?ident N (Min (set x)) (Max (set x))
               else mf_radix_sort_index_do stack failing N (Max (set x)) shift loops x ?ident 1 0)"
    using radix_sort_index_run [of x index1 ?ident raw dshift shift loops rawloops stack failing]
      f1 len(3) N sh by simp
  show ?thesis
  proof (intro conjI impI)
    assume H: "unat (Max (set x)) - unat (Min (set x)) + 1 < 2 ^ 24 \<and>
          (\<forall>var. (''mf_counting_sort_index'', var) \<notin> set failing)"
    show "mf_radix_sort_index stack rawloops failing x index1 N dshift raw =
              Inr (RC_OK,
                   map fst (sort_key (\<lambda>z. unat (fst z)) (zip x ?ident)),
                   map snd (sort_key (\<lambda>z. unat (fst z)) (zip x ?ident)))"
      by (rule c) (use H in blast)+
  qed (rule f1 a b d)+
qed

theorem index_overwritten_witness:
  "mf_index_fill 3 [7, 8, 9 :: u64] = Inr [0, 1, 2] \<and>
   mf_radix_sort_index 8388608 (\<lambda>m d. Inr 0) [] [3, 1, 2] [7, 8, 9] 3 16 0 =
     mf_counting_sort_index [] [3, 1, 2] [0, 1, 2] 3 1 3 \<and>
   mf_radix_sort_index 8388608 (\<lambda>m d. Inr 0) [] [3, 1, 2] [7, 8, 9] 3 16 0 =
     mf_radix_sort_index 8388608 (\<lambda>m d. Inr 0) [] [3, 1, 2] [0, 1, 2] 3 16 0 \<and>
   mf_radix_sort_index 8388608 (\<lambda>m d. Inr 0) [] [3, 1, 2] [7, 8, 9] 3 16 0 =
     mf_radix_sort_index 8388608 (\<lambda>m d. Inr 0) [] [3, 1, 2] [0, 0, 0] 3 16 0 \<and>
   mf_radix_sort_index 8388608 (\<lambda>m d. Inr 0) [] [3, 1, 2] [7, 8, 9] 3 16 0 =
     Inr (RC_OK, [1, 2, 3], [1, 2, 0])"
proof -
  have u: "map of_nat [0..<3] = [0, 1, 2 :: u64]" by (simp add: upt_rec)
  have k: "sort_key (\<lambda>z. unat (fst z)) (zip [3, 1, 2 :: u64] [0, 1, 2 :: u64]) =
             [(1, 1), (2, 2), (3, 0)]"
    by (simp add: sort_key_def)
  have pre: "length [7, 8, 9 :: u64] = 3" "length [0, 0, 0 :: u64] = 3"
    "length [3, 1, 2 :: u64] = 3" "0 < (3 :: nat)" "(3 :: nat) < 2 ^ 31"
    "(0 :: nat) = 0 \<longrightarrow> 0 < (16 :: nat) \<and> (16 :: nat) < 64 \<and> (65536 :: u64) = 2 ^ 16 \<and>
       (3 :: nat) = 64 div 16 - 1"
    "(0 :: nat) \<noteq> 0 \<longrightarrow> (\<lambda>(m :: u64) (d :: nat). (Inr 0 :: fault + nat)) (Max (set [3, 1, 2])) 16 = Inr 3 \<and>
       (65536 :: u64) = of_nat 16"
    by simp_all
  note t = index_overwritten [OF pre, where stack = 8388608 and failing = "[]", unfolded u k]
  have r: "mf_radix_sort_index 8388608 (\<lambda>m d. Inr 0) [] [3, 1, 2] [7, 8, 9] 3 16 0 =
     Inr (RC_OK, [1, 2, 3], [1, 2, 0])"
    using t [THEN conjunct2, THEN conjunct2, THEN conjunct2, THEN conjunct2] by simp
  have q: "mf_radix_sort_index 8388608 (\<lambda>m d. Inr 0) [] [3, 1, 2] [7, 8, 9] 3 16 0 =
     mf_counting_sort_index [] [3, 1, 2] [0, 1, 2] 3 1 3"
    using t [THEN conjunct2, THEN conjunct1] by simp
  from t have t1: "mf_index_fill 3 [7, 8, 9 :: u64] = Inr [0, 1, 2]"
    and t2: "mf_radix_sort_index 8388608 (\<lambda>m d. Inr 0) [] [3, 1, 2] [7, 8, 9] 3 16 0 =
     mf_radix_sort_index 8388608 (\<lambda>m d. Inr 0) [] [3, 1, 2] [0, 1, 2] 3 16 0"
    and t3: "mf_radix_sort_index 8388608 (\<lambda>m d. Inr 0) [] [3, 1, 2] [7, 8, 9] 3 16 0 =
     mf_radix_sort_index 8388608 (\<lambda>m d. Inr 0) [] [3, 1, 2] [0, 0, 0] 3 16 0"
    by blast+
  show ?thesis
    by (intro conjI) (rule t1 t2 t3 q r)+
qed

end
